theory Spec2Isabelle
  imports Main
begin

section \<open>Strings\<close>

text \<open>
  The program is TypeScript; its strings are sequences of UTF-16 code units. A string is
  modelled as the list of its code units, so that the epsilon marker (U+03B5) and the dot
  marker (U+2022) are single elements, as they are for the regular expressions and the
  comparisons of the source. \<open>str\<close> writes an ASCII literal.
\<close>

type_synonym jstring = "int list"

abbreviation str :: "string \<Rightarrow> jstring" where
  "str s \<equiv> map of_char s"

definition epsilon :: jstring where
  "epsilon = [949]"

definition bullet :: jstring where
  "bullet = [8226]"

definition endMarker :: jstring where
  "endMarker = str ''$''"

text \<open>
  The character classes of the source's regular expressions: \<open>\s\<close> (which is also what
  \<open>trim\<close> strips: WhiteSpace and LineTerminator of ECMAScript), the line terminators that
  \<open>.\<close> does not match, and the ASCII ranges.
\<close>

definition isSpace :: "int \<Rightarrow> bool" where
  "isSpace c \<longleftrightarrow>
     c = 9 \<or> c = 10 \<or> c = 11 \<or> c = 12 \<or> c = 13 \<or> c = 32 \<or> c = 160 \<or> c = 5760 \<or>
     (8192 \<le> c \<and> c \<le> 8202) \<or> c = 8232 \<or> c = 8233 \<or> c = 8239 \<or> c = 8287 \<or>
     c = 12288 \<or> c = 65279"

definition isLineTerminator :: "int \<Rightarrow> bool" where
  "isLineTerminator c \<longleftrightarrow> c = 10 \<or> c = 13 \<or> c = 8232 \<or> c = 8233"

definition isUpper :: "int \<Rightarrow> bool" where
  "isUpper c \<longleftrightarrow> 65 \<le> c \<and> c \<le> 90"

definition isLower :: "int \<Rightarrow> bool" where
  "isLower c \<longleftrightarrow> 97 \<le> c \<and> c \<le> 122"

definition isDigit :: "int \<Rightarrow> bool" where
  "isDigit c \<longleftrightarrow> 48 \<le> c \<and> c \<le> 57"

definition isAlnum :: "int \<Rightarrow> bool" where
  "isAlnum c \<longleftrightarrow> isUpper c \<or> isLower c \<or> isDigit c"

text \<open>\<open>s.trim()\<close>, \<open>xs.join(sep)\<close>, \<open>s.split("\n")\<close> and \<open>s.split(/\s+/)\<close>.\<close>

definition trim :: "jstring \<Rightarrow> jstring" where
  "trim s = rev (dropWhile isSpace (rev (dropWhile isSpace s)))"

fun join :: "jstring \<Rightarrow> jstring list \<Rightarrow> jstring" where
  "join sep [] = []"
| "join sep [x] = x"
| "join sep (x # y # ys) = x @ sep @ join sep (y # ys)"

text \<open>
  Splitting at a separator string always returns at least one piece: the empty string
  splits into the one-element array holding the empty string.
\<close>

fun splitNewline :: "jstring \<Rightarrow> jstring list" where
  "splitNewline [] = [[]]"
| "splitNewline (c # cs) =
     (if c = 10 then [] # splitNewline cs
      else (case splitNewline cs of
              [] \<Rightarrow> [[c]]
            | l # ls \<Rightarrow> (c # l) # ls))"

text \<open>
  Splitting at \<open>/\s+/\<close>: every maximal run of whitespace is one separator; a run at
  the start or at the end leaves an empty piece there. \<open>inws\<close> says that the previous
  code unit belonged to a separator, \<open>cur\<close> is the piece being read.
\<close>

fun splitSpacesFrom :: "bool \<Rightarrow> jstring \<Rightarrow> jstring \<Rightarrow> jstring list" where
  "splitSpacesFrom inws cur [] = [cur]"
| "splitSpacesFrom inws cur (c # cs) =
     (if isSpace c then
        (if inws then splitSpacesFrom True cur cs
         else cur # splitSpacesFrom True [] cs)
      else splitSpacesFrom False (cur @ [c]) cs)"

definition splitSpaces :: "jstring \<Rightarrow> jstring list" where
  "splitSpaces s = splitSpacesFrom False [] s"

section \<open>Grammar types\<close>

text \<open>
  The interfaces \<open>Production\<close>, \<open>Grammar\<close>, \<open>Item\<close> and \<open>State\<close>. The fields
  \<open>Production.id\<close> and \<open>State.id\<close> are called \<open>pid\<close> and \<open>sid\<close> here, since
  \<open>id\<close> is the identity function of HOL. A \<open>Set<string>\<close> of the source iterates in
  insertion order; it is a duplicate-free list, extended by \<open>setAdd\<close>.
\<close>

record production =
  lhs :: jstring
  rhs :: "jstring list"
  pid :: nat

record grammar =
  productions :: "production list"
  terminals :: "jstring list"
  nonTerminals :: "jstring list"
  startSymbol :: jstring

definition setAdd :: "'a \<Rightarrow> 'a list \<Rightarrow> 'a list" where
  "setAdd x xs = (if x \<in> set xs then xs else xs @ [x])"

text \<open>
  What the source throws: \<open>new Error(message)\<close>, and the faults of the runtime
  (reading a property of \<open>undefined\<close>, calling what is not a function).
\<close>

datatype error = Error jstring | TypeError

section \<open>parseGrammar\<close>

text \<open>
  The greedy, backtracking match of a line against
  \<open>/^\s*([A-Z][A-Za-z0-9]*)\s*->\s*(.+)\s*$/\<close>. Up to the arrow the match is forced:
  a shorter run of \<open>\s*\<close> or of \<open>[A-Za-z0-9]*\<close> leaves a code unit of the same class
  next, which none of the following pattern elements accepts. After the arrow the
  alternatives are tried in the order of the engine: the longest \<open>\s*\<close> first, and for
  each the longest \<open>.+\<close> first, until the rest of the line is whitespace only.
\<close>

fun firstSome :: "('a \<Rightarrow> 'b option) \<Rightarrow> 'a list \<Rightarrow> 'b option" where
  "firstSome f [] = None"
| "firstSome f (x # xs) = (case f x of Some y \<Rightarrow> Some y | None \<Rightarrow> firstSome f xs)"

definition matchDotPlus :: "jstring \<Rightarrow> jstring option" where
  "matchDotPlus r =
     (let m = length (takeWhile (\<lambda>c. \<not> isLineTerminator c) r)
      in firstSome (\<lambda>j. if list_all isSpace (drop j r) then Some (take j r) else None)
           (rev [1..<Suc m]))"

definition matchRhs :: "jstring \<Rightarrow> jstring option" where
  "matchRhs r =
     (let w = length (takeWhile isSpace r)
      in firstSome (\<lambda>k. matchDotPlus (drop k r)) (rev [0..<Suc w]))"

definition matchLine :: "jstring \<Rightarrow> (jstring \<times> jstring) option" where
  "matchLine line =
     (case dropWhile isSpace line of
        [] \<Rightarrow> None
      | c # cs \<Rightarrow>
          if \<not> isUpper c then None
          else
            let s2 = dropWhile isSpace (dropWhile isAlnum cs)
            in if take 2 s2 = str ''->''
               then map_option (Pair (c # takeWhile isAlnum cs)) (matchRhs (drop 2 s2))
               else None)"

text \<open>\<open>/^[a-z0-9]+$/.test(symbol)\<close> and \<open>/^[A-Z][A-Za-z0-9]*$/.test(symbol)\<close>.\<close>

definition isTerminalToken :: "jstring \<Rightarrow> bool" where
  "isTerminalToken s \<longleftrightarrow> s \<noteq> [] \<and> list_all (\<lambda>c. isLower c \<or> isDigit c) s"

definition isNonTerminalToken :: "jstring \<Rightarrow> bool" where
  "isNonTerminalToken s \<longleftrightarrow> (case s of [] \<Rightarrow> False | c # cs \<Rightarrow> isUpper c \<and> list_all isAlnum cs)"

text \<open>The loop over the symbols of one right-hand side, on the two sets.\<close>

fun scanSymbols ::
  "jstring list \<Rightarrow> jstring list \<times> jstring list \<Rightarrow> error + (jstring list \<times> jstring list)" where
  "scanSymbols [] (ts, nts) = Inr (ts, nts)"
| "scanSymbols (symbol # rest) (ts, nts) =
     (if symbol = epsilon then scanSymbols rest (ts, nts)
      else if isTerminalToken symbol then scanSymbols rest (setAdd symbol ts, nts)
      else if isNonTerminalToken symbol then scanSymbols rest (ts, setAdd symbol nts)
      else if symbol \<noteq> [] then Inl (Error (str ''Invalid symbol in production: '' @ symbol))
      else scanSymbols rest (ts, nts))"

text \<open>
  The two copies of \<open>parseGrammar\<close> (src/lib/clr-parser.ts and the second copy, which
  also holds \<open>parseString\<close>) differ in one expression only, the right-hand side stored in
  the production that is pushed:
  \<^item> the first copy writes \<open>rhs === ["\<epsilon>"] ? [] : rhs\<close>, which compares the array with a
    freshly allocated array by reference, and a fresh array is identical to no other;
  \<^item> the second copy writes \<open>rhs.length === 1 && rhs[0] === "\<epsilon>" ? [] : rhs\<close>.
  The loop takes that expression as its parameter \<open>stored\<close>.
\<close>

definition identicalToFreshArray :: "jstring list \<Rightarrow> jstring list \<Rightarrow> bool" where
  "identicalToFreshArray xs fresh = False"

definition storedRhsLib :: "jstring list \<Rightarrow> jstring list" where
  "storedRhsLib rhs' = (if identicalToFreshArray rhs' [epsilon] then [] else rhs')"

definition storedRhsCopy :: "jstring list \<Rightarrow> jstring list" where
  "storedRhsCopy rhs' = (if length rhs' = 1 \<and> rhs' ! 0 = epsilon then [] else rhs')"

fun parseLines ::
  "(jstring list \<Rightarrow> jstring list) \<Rightarrow> nat \<Rightarrow> jstring list \<Rightarrow>
   production list \<times> jstring list \<times> jstring list \<Rightarrow>
   error + (production list \<times> jstring list \<times> jstring list)" where
  "parseLines stored i [] st = Inr st"
| "parseLines stored i (line # rest) (prods, ts, nts) =
     (case matchLine line of
        None \<Rightarrow> Inl (Error (str ''Invalid production format: '' @ line))
      | Some (lhs', rhsStr) \<Rightarrow>
          let nts1 = setAdd lhs' nts;
              rhs' = (if trim rhsStr = epsilon \<or> trim rhsStr = [] then [epsilon]
                      else splitSpaces (trim rhsStr))
          in (case scanSymbols rhs' (ts, nts1) of
                Inl e \<Rightarrow> Inl e
              | Inr (ts2, nts2) \<Rightarrow>
                  parseLines stored (i + 1) rest
                    (prods @ [\<lparr>lhs = lhs', rhs = stored rhs', pid = i + 1\<rparr>], ts2, nts2)))"

definition parseGrammarWith :: "(jstring list \<Rightarrow> jstring list) \<Rightarrow> jstring \<Rightarrow> error + grammar" where
  "parseGrammarWith stored input =
     (let lines = splitNewline (trim input)
      in if length lines = 0 then Inl (Error (str ''Grammar cannot be empty''))
         else
           (case parseLines stored 0 lines ([], [], []) of
              Inl e \<Rightarrow> Inl e
            | Inr (prods, ts, nts) \<Rightarrow>
                (case prods of
                   [] \<Rightarrow> Inl TypeError
                 | p # _ \<Rightarrow>
                     let augmentedStartSymbol = lhs p @ [39]
                     in Inr \<lparr>productions =
                               \<lparr>lhs = augmentedStartSymbol, rhs = [lhs p], pid = 0\<rparr> # prods,
                             terminals = setAdd endMarker ts,
                             nonTerminals = setAdd augmentedStartSymbol nts,
                             startSymbol = augmentedStartSymbol\<rparr>)))"

definition parseGrammar :: "jstring \<Rightarrow> error + grammar" where
  "parseGrammar = parseGrammarWith storedRhsLib"

definition parseGrammarCopy :: "jstring \<Rightarrow> error + grammar" where
  "parseGrammarCopy = parseGrammarWith storedRhsCopy"

section \<open>Items\<close>

record item =
  production :: production
  dotPosition :: nat
  lookahead :: "jstring list"

record state =
  sid :: nat
  items :: "item list"
  kernel :: "item list option"

definition arraysEqual :: "jstring list \<Rightarrow> jstring list \<Rightarrow> bool" where
  "arraysEqual arr1 arr2 =
     (if length arr1 \<noteq> length arr2 then False
      else list_all (\<lambda>x. x \<in> set arr1) arr2)"

definition itemsEqual :: "item \<Rightarrow> item \<Rightarrow> bool" where
  "itemsEqual item1 item2 \<longleftrightarrow>
     lhs (production item1) = lhs (production item2) \<and>
     join (str '' '') (rhs (production item1)) = join (str '' '') (rhs (production item2)) \<and>
     dotPosition item1 = dotPosition item2 \<and>
     arraysEqual (lookahead item1) (lookahead item2)"

section \<open>computeFirst\<close>

text \<open>
  \<open>computeFirst\<close> calls itself without any record of the calls in progress, so it need
  not return. The first argument of the model bounds the depth of the calls: \<open>None\<close>
  says that the call did not return within that depth. \<open>firstLoop\<close> is the loop over the
  productions; \<open>again\<close> is \<open>computeFirst\<close> itself, one call deeper.
\<close>

definition addAll :: "'a list \<Rightarrow> 'a list \<Rightarrow> 'a list" where
  "addAll new s = foldl (\<lambda>acc x. setAdd x acc) s new"

fun firstLoop ::
  "(jstring list \<Rightarrow> jstring list option) \<Rightarrow> jstring list \<Rightarrow> production list \<Rightarrow>
   jstring list \<Rightarrow> jstring list option" where
  "firstLoop again symbols [] first = Some first"
| "firstLoop again symbols (p # ps) first =
     (if lhs p = symbols ! 0 then
        (if length (rhs p) = 0 \<or> rhs p ! 0 = epsilon then
           (if length symbols > 1 then
              (case again (drop 1 symbols) of
                 None \<Rightarrow> None
               | Some restFirst \<Rightarrow>
                   firstLoop again symbols ps (addAll restFirst (setAdd epsilon first)))
            else firstLoop again symbols ps (setAdd epsilon first))
         else
           (case again (rhs p) of
              None \<Rightarrow> None
            | Some rhsFirst \<Rightarrow>
                (if epsilon \<in> set rhsFirst \<and> length symbols > 1 then
                   (case again (drop 1 symbols) of
                      None \<Rightarrow> None
                    | Some restFirst \<Rightarrow>
                        firstLoop again symbols ps
                          (addAll restFirst
                             (addAll (filter (\<lambda>s. s \<noteq> epsilon) rhsFirst) first)))
                 else
                   firstLoop again symbols ps
                     (addAll (filter (\<lambda>s. s \<noteq> epsilon) rhsFirst) first))))
      else firstLoop again symbols ps first)"

fun computeFirst :: "nat \<Rightarrow> grammar \<Rightarrow> jstring list \<Rightarrow> jstring list option" where
  "computeFirst 0 g symbols = None"
| "computeFirst (Suc n) g symbols =
     (if length symbols = 0 then Some [epsilon]
      else if symbols ! 0 \<in> set (terminals g) then Some [symbols ! 0]
      else firstLoop (computeFirst n g) symbols (productions g) [])"

section \<open>closure\<close>

text \<open>
  The loops of \<open>closure\<close>, innermost first: over the lookaheads of the FIRST set for one
  production (\<open>pushNew\<close>), over the productions (\<open>expandProductions\<close>), the body for the
  item at one index (\<open>closureItem\<close>), the pass over the indices of \<open>result\<close>, which grows
  during the pass (\<open>closurePass\<close>), and the passes (\<open>closureLoop\<close>). The state of the loops
  is the array \<open>result\<close> and the flag \<open>changed\<close>. The first argument bounds the number of
  iterations and the depth of \<open>computeFirst\<close>.
\<close>

fun pushNew :: "production \<Rightarrow> jstring list \<Rightarrow> item list \<times> bool \<Rightarrow> item list \<times> bool" where
  "pushNew p [] (result, changed) = (result, changed)"
| "pushNew p (la # las) (result, changed) =
     (if \<not> list_ex (\<lambda>it. itemsEqual it \<lparr>production = p, dotPosition = 0, lookahead = [la]\<rparr>) result
      then pushNew p las (result @ [\<lparr>production = p, dotPosition = 0, lookahead = [la]\<rparr>], True)
      else pushNew p las (result, changed))"

fun expandProductions ::
  "jstring \<Rightarrow> jstring list \<Rightarrow> production list \<Rightarrow> item list \<times> bool \<Rightarrow> item list \<times> bool" where
  "expandProductions symbolAfterDot firstSet [] st = st"
| "expandProductions symbolAfterDot firstSet (p # ps) st =
     expandProductions symbolAfterDot firstSet ps
       (if lhs p = symbolAfterDot then pushNew p firstSet st else st)"

definition closureItem ::
  "nat \<Rightarrow> grammar \<Rightarrow> item \<Rightarrow> item list \<times> bool \<Rightarrow> (item list \<times> bool) option" where
  "closureItem n g it st =
     (if dotPosition it < length (rhs (production it)) then
        (if rhs (production it) ! dotPosition it \<in> set (nonTerminals g) then
           (case computeFirst n g (drop (dotPosition it + 1) (rhs (production it)) @ lookahead it) of
              None \<Rightarrow> None
            | Some firstSet \<Rightarrow>
                Some (expandProductions (rhs (production it) ! dotPosition it)
                        (removeAll epsilon firstSet) (productions g) st))
         else Some st)
      else Some st)"

fun closurePass ::
  "nat \<Rightarrow> grammar \<Rightarrow> nat \<Rightarrow> item list \<times> bool \<Rightarrow> (item list \<times> bool) option" where
  "closurePass 0 g i st = None"
| "closurePass (Suc n) g i (result, changed) =
     (if i < length result then
        (case closureItem n g (result ! i) (result, changed) of
           None \<Rightarrow> None
         | Some st' \<Rightarrow> closurePass n g (i + 1) st')
      else Some (result, changed))"

fun closureLoop :: "nat \<Rightarrow> grammar \<Rightarrow> item list \<Rightarrow> item list option" where
  "closureLoop 0 g result = None"
| "closureLoop (Suc n) g result =
     (case closurePass n g 0 (result, False) of
        None \<Rightarrow> None
      | Some (result', changed) \<Rightarrow>
          if changed then closureLoop n g result' else Some result')"

definition closure :: "nat \<Rightarrow> grammar \<Rightarrow> item list \<Rightarrow> item list option" where
  "closure n g items' = closureLoop n g items'"

section \<open>goto\<close>

definition advance :: "jstring \<Rightarrow> item list \<Rightarrow> item list" where
  "advance symbol items' =
     map (\<lambda>it. \<lparr>production = production it, dotPosition = dotPosition it + 1,
                lookahead = lookahead it\<rparr>)
       (filter (\<lambda>it. dotPosition it < length (rhs (production it)) \<and>
                      rhs (production it) ! dotPosition it = symbol) items')"

definition goto :: "nat \<Rightarrow> grammar \<Rightarrow> item list \<Rightarrow> jstring \<Rightarrow> item list option" where
  "goto n g items' symbol = closure n g (advance symbol items')"

section \<open>generateClrItems\<close>

text \<open>
  The signature of an item set: each item printed with the dot marker spliced into the
  right-hand side (\<open>splice\<close> inserts at the end when the index is beyond it), the
  strings sorted (the default \<open>sort\<close> orders strings by their code units) and joined.
\<close>

definition spliceBullet :: "nat \<Rightarrow> jstring list \<Rightarrow> jstring list" where
  "spliceBullet pos xs = take pos xs @ [bullet] @ drop pos xs"

fun stringLe :: "jstring \<Rightarrow> jstring \<Rightarrow> bool" where
  "stringLe [] ys = True"
| "stringLe (x # xs) [] = False"
| "stringLe (x # xs) (y # ys) = (x < y \<or> (x = y \<and> stringLe xs ys))"

fun insertString :: "jstring \<Rightarrow> jstring list \<Rightarrow> jstring list" where
  "insertString x [] = [x]"
| "insertString x (y # ys) = (if stringLe x y then x # y # ys else y # insertString x ys)"

definition sortStrings :: "jstring list \<Rightarrow> jstring list" where
  "sortStrings xs = foldr insertString xs []"

definition getStateSignature :: "item list \<Rightarrow> jstring" where
  "getStateSignature items' =
     join (str ''|'')
       (sortStrings
          (map (\<lambda>it. lhs (production it) @ str ''->'' @
                      join (str '' '') (spliceBullet (dotPosition it) (rhs (production it))) @
                      str '','' @ join (str ''/'') (lookahead it))
             items'))"

text \<open>The set of the symbols after a dot, in the order in which the items give them.\<close>

definition symbolsAfterDot :: "item list \<Rightarrow> jstring list" where
  "symbolsAfterDot items' =
     foldl (\<lambda>symbols it.
              if dotPosition it < length (rhs (production it))
              then setAdd (rhs (production it) ! dotPosition it) symbols
              else symbols)
       [] items'"

definition kernelOf :: "state \<Rightarrow> jstring \<Rightarrow> item list \<Rightarrow> item list" where
  "kernelOf st symbol gotoItems =
     filter (\<lambda>it. list_ex (\<lambda>stateItem.
                dotPosition stateItem < length (rhs (production stateItem)) \<and>
                rhs (production stateItem) ! dotPosition stateItem = symbol \<and>
                lhs (production stateItem) = lhs (production it) \<and>
                join (str '' '') (rhs (production stateItem)) = join (str '' '') (rhs (production it)) \<and>
                dotPosition it = dotPosition stateItem + 1) (items st))
       gotoItems"

text \<open>
  The loop over the symbols of one state, on the array \<open>states\<close> and the map
  \<open>stateMap\<close> from signatures to state ids; then the loop over the indices of
  \<open>states\<close>, which grows while it is traversed.
\<close>

fun exploreSymbols ::
  "nat \<Rightarrow> grammar \<Rightarrow> state \<Rightarrow> jstring list \<Rightarrow> state list \<times> (jstring \<rightharpoonup> nat) \<Rightarrow>
   (state list \<times> (jstring \<rightharpoonup> nat)) option" where
  "exploreSymbols n g st [] acc = Some acc"
| "exploreSymbols n g st (symbol # rest) (states, stateMap) =
     (case goto n g (items st) symbol of
        None \<Rightarrow> None
      | Some gotoItems \<Rightarrow>
          if length gotoItems > 0 then
            (if stateMap (getStateSignature gotoItems) = None then
               exploreSymbols n g st rest
                 (states @ [\<lparr>sid = length states, items = gotoItems,
                              kernel = Some (kernelOf st symbol gotoItems)\<rparr>],
                  stateMap(getStateSignature gotoItems \<mapsto> length states))
             else exploreSymbols n g st rest (states, stateMap))
          else exploreSymbols n g st rest (states, stateMap))"

fun clrLoop ::
  "nat \<Rightarrow> grammar \<Rightarrow> nat \<Rightarrow> state list \<times> (jstring \<rightharpoonup> nat) \<Rightarrow> state list option" where
  "clrLoop 0 g i acc = None"
| "clrLoop (Suc n) g i (states, stateMap) =
     (if i < length states then
        (case exploreSymbols n g (states ! i) (symbolsAfterDot (items (states ! i)))
                (states, stateMap) of
           None \<Rightarrow> None
         | Some acc \<Rightarrow> clrLoop n g (i + 1) acc)
      else Some states)"

text \<open>
  \<open>grammar.productions[0]\<close> is \<open>undefined\<close> for a grammar without productions, and the
  closure of the initial item then reads a property of it.
\<close>

definition generateClrItems :: "nat \<Rightarrow> grammar \<Rightarrow> (error + state list) option" where
  "generateClrItems n g =
     (case productions g of
        [] \<Rightarrow> Some (Inl TypeError)
      | p0 # _ \<Rightarrow>
          (case closure n g [\<lparr>production = p0, dotPosition = 0, lookahead = [endMarker]\<rparr>] of
             None \<Rightarrow> None
           | Some initialClosure \<Rightarrow>
               map_option Inr
                 (clrLoop n g 0
                    ([\<lparr>sid = 0, items = initialClosure,
                        kernel = Some [\<lparr>production = p0, dotPosition = 0,
                                         lookahead = [endMarker]\<rparr>]\<rparr>],
                     [getStateSignature initialClosure \<mapsto> 0]))))"

section \<open>generateDfa\<close>

record node =
  nodeId :: nat
  nodeLabel :: jstring

record edge =
  source :: nat
  target :: nat
  label :: jstring

record dfa =
  nodes :: "node list"
  edges :: "edge list"

definition nodeOf :: "state \<Rightarrow> node" where
  "nodeOf st =
     \<lparr>nodeId = sid st,
      nodeLabel =
        join [10]
          (map (\<lambda>it. lhs (production it) @ str '' -> '' @
                      join (str '' '') (spliceBullet (dotPosition it) (rhs (production it))) @
                      str '', '' @ join (str ''/'') (lookahead it))
             (items st))\<rparr>"

text \<open>The first state whose item array matches the GOTO set gives the edge.\<close>

definition findTarget :: "state list \<Rightarrow> item list \<Rightarrow> state option" where
  "findTarget states gotoItems =
     List.find (\<lambda>targetState.
        length gotoItems = length (items targetState) \<and>
        list_all (\<lambda>it. list_ex (\<lambda>targetItem. itemsEqual it targetItem) (items targetState))
          gotoItems) states"

fun edgesOfSymbols ::
  "nat \<Rightarrow> grammar \<Rightarrow> state list \<Rightarrow> state \<Rightarrow> jstring list \<Rightarrow> edge list \<Rightarrow> edge list option" where
  "edgesOfSymbols n g states st [] es = Some es"
| "edgesOfSymbols n g states st (symbol # rest) es =
     (case goto n g (items st) symbol of
        None \<Rightarrow> None
      | Some gotoItems \<Rightarrow>
          if length gotoItems > 0 then
            (case findTarget states gotoItems of
               None \<Rightarrow> edgesOfSymbols n g states st rest es
             | Some targetState \<Rightarrow>
                 edgesOfSymbols n g states st rest
                   (es @ [\<lparr>source = sid st, target = sid targetState, label = symbol\<rparr>]))
          else edgesOfSymbols n g states st rest es)"

fun edgesOfStates ::
  "nat \<Rightarrow> grammar \<Rightarrow> state list \<Rightarrow> state list \<Rightarrow> edge list \<Rightarrow> edge list option" where
  "edgesOfStates n g states [] es = Some es"
| "edgesOfStates n g states (st # rest) es =
     (case edgesOfSymbols n g states st (symbolsAfterDot (items st)) es of
        None \<Rightarrow> None
      | Some es' \<Rightarrow> edgesOfStates n g states rest es')"

definition generateDfa :: "nat \<Rightarrow> state list \<Rightarrow> grammar \<Rightarrow> dfa option" where
  "generateDfa n states g =
     map_option (\<lambda>es. \<lparr>nodes = map nodeOf states, edges = es\<rparr>)
       (edgesOfStates n g states states [])"

section \<open>Rows of the tables\<close>

text \<open>
  A row of the action or goto table is a plain object created by \<open>{}\<close>: it holds the
  properties written to it and inherits the members of \<open>Object.prototype\<close>. Reading
  \<open>row[key]\<close> therefore gives the string written under \<open>key\<close>, or else the inherited
  member when \<open>key\<close> names one, or else \<open>undefined\<close>. Writing a string to
  \<open>row["__proto__"]\<close> runs the inherited setter, which ignores it.
\<close>

type_synonym row = "jstring \<rightharpoonup> jstring"

datatype property = Undefined | Str jstring | Inherited jstring

definition objectPrototypeKeys :: "jstring list" where
  "objectPrototypeKeys =
     [str ''constructor'', str ''hasOwnProperty'', str ''isPrototypeOf'',
      str ''propertyIsEnumerable'', str ''toLocaleString'', str ''toString'',
      str ''valueOf'', str ''__proto__'', str ''__defineGetter__'',
      str ''__defineSetter__'', str ''__lookupGetter__'', str ''__lookupSetter__'']"

definition getProp :: "row \<Rightarrow> jstring \<Rightarrow> property" where
  "getProp r key =
     (case r key of
        Some v \<Rightarrow> Str v
      | None \<Rightarrow> if key \<in> set objectPrototypeKeys then Inherited key else Undefined)"

definition setProp :: "row \<Rightarrow> jstring \<Rightarrow> jstring \<Rightarrow> row" where
  "setProp r key v = (if key = str ''__proto__'' then r else r(key \<mapsto> v))"

definition startsWith :: "jstring \<Rightarrow> jstring \<Rightarrow> bool" where
  "startsWith s prefix \<longleftrightarrow> take (length prefix) s = prefix"

text \<open>The decimal digits of a number, as \<open>toString\<close> and a template literal print it.\<close>

fun showNat :: "nat \<Rightarrow> jstring" where
  "showNat n = (if n < 10 then [48 + int n] else showNat (n div 10) @ [48 + int (n mod 10)])"

declare showNat.simps [simp del]

section \<open>generateParsingTable\<close>

record parsingTable =
  actions :: "nat \<rightharpoonup> row"
  gotos :: "nat \<rightharpoonup> row"
  tableTerminals :: "jstring list"
  tableNonTerminals :: "jstring list"
  tableStates :: "nat list"

text \<open>The three loops: the empty rows, the edges, the complete items.\<close>

definition initTables :: "state list \<Rightarrow> (nat \<rightharpoonup> row) \<times> (nat \<rightharpoonup> row)" where
  "initTables states =
     foldl (\<lambda>(acts, gts) st. (acts(sid st \<mapsto> Map.empty), gts(sid st \<mapsto> Map.empty)))
       (Map.empty, Map.empty) states"

definition addEdge ::
  "grammar \<Rightarrow> edge \<Rightarrow> (nat \<rightharpoonup> row) \<times> (nat \<rightharpoonup> row) \<Rightarrow> error + ((nat \<rightharpoonup> row) \<times> (nat \<rightharpoonup> row))" where
  "addEdge g e tabs =
     (if label e \<in> set (terminals g) then
        (case fst tabs (source e) of
           None \<Rightarrow> Inl TypeError
         | Some r \<Rightarrow>
             Inr ((fst tabs)(source e \<mapsto> setProp r (label e) (str ''s'' @ showNat (target e))),
                  snd tabs))
      else if label e \<in> set (nonTerminals g) then
        (case snd tabs (source e) of
           None \<Rightarrow> Inl TypeError
         | Some r \<Rightarrow>
             Inr (fst tabs,
                  (snd tabs)(source e \<mapsto> setProp r (label e) (showNat (target e)))))
      else Inr tabs)"

fun addEdges ::
  "grammar \<Rightarrow> edge list \<Rightarrow> (nat \<rightharpoonup> row) \<times> (nat \<rightharpoonup> row) \<Rightarrow>
   error + ((nat \<rightharpoonup> row) \<times> (nat \<rightharpoonup> row))" where
  "addEdges g [] tabs = Inr tabs"
| "addEdges g (e # es) tabs =
     (case addEdge g e tabs of Inl err \<Rightarrow> Inl err | Inr tabs' \<Rightarrow> addEdges g es tabs')"

text \<open>
  The reduce entries of one complete item. The test
  \<open>!row[l] || !row[l].startsWith("s")\<close> calls \<open>startsWith\<close> on whatever \<open>row[l]\<close>
  is when that is not falsy: an inherited member of \<open>Object.prototype\<close> has no such
  method, and the call throws.
\<close>

fun reduceLookaheads :: "nat \<Rightarrow> jstring list \<Rightarrow> row \<Rightarrow> error + row" where
  "reduceLookaheads p [] r = Inr r"
| "reduceLookaheads p (la # las) r =
     (case getProp r la of
        Undefined \<Rightarrow> reduceLookaheads p las (setProp r la (str ''r'' @ showNat p))
      | Str v \<Rightarrow>
          if v = [] \<or> \<not> startsWith v (str ''s'')
          then reduceLookaheads p las (setProp r la (str ''r'' @ showNat p))
          else reduceLookaheads p las r
      | Inherited k \<Rightarrow> Inl TypeError)"

definition reduceItem :: "grammar \<Rightarrow> nat \<Rightarrow> item \<Rightarrow> (nat \<rightharpoonup> row) \<Rightarrow> error + (nat \<rightharpoonup> row)" where
  "reduceItem g s it acts =
     (if dotPosition it = length (rhs (production it)) then
        (case acts s of
           None \<Rightarrow> Inl TypeError
         | Some r \<Rightarrow>
             if lhs (production it) = startSymbol g \<and> endMarker \<in> set (lookahead it)
             then Inr (acts(s \<mapsto> setProp r endMarker (str ''acc'')))
             else
               (case reduceLookaheads (pid (production it)) (lookahead it) r of
                  Inl err \<Rightarrow> Inl err
                | Inr r' \<Rightarrow> Inr (acts(s \<mapsto> r'))))
      else Inr acts)"

fun reduceItems :: "grammar \<Rightarrow> nat \<Rightarrow> item list \<Rightarrow> (nat \<rightharpoonup> row) \<Rightarrow> error + (nat \<rightharpoonup> row)" where
  "reduceItems g s [] acts = Inr acts"
| "reduceItems g s (it # its) acts =
     (case reduceItem g s it acts of Inl err \<Rightarrow> Inl err | Inr acts' \<Rightarrow> reduceItems g s its acts')"

fun reduceStates :: "grammar \<Rightarrow> state list \<Rightarrow> (nat \<rightharpoonup> row) \<Rightarrow> error + (nat \<rightharpoonup> row)" where
  "reduceStates g [] acts = Inr acts"
| "reduceStates g (st # sts) acts =
     (case reduceItems g (sid st) (items st) acts of
        Inl err \<Rightarrow> Inl err
      | Inr acts' \<Rightarrow> reduceStates g sts acts')"

definition generateParsingTable :: "state list \<Rightarrow> dfa \<Rightarrow> grammar \<Rightarrow> error + parsingTable" where
  "generateParsingTable states d g =
     (case addEdges g (edges d) (initTables states) of
        Inl err \<Rightarrow> Inl err
      | Inr tabs \<Rightarrow>
          (case reduceStates g states (fst tabs) of
             Inl err \<Rightarrow> Inl err
           | Inr acts \<Rightarrow>
               Inr \<lparr>actions = acts, gotos = snd tabs,
                    tableTerminals = terminals g,
                    tableNonTerminals = filter (\<lambda>nt. nt \<noteq> startSymbol g) (nonTerminals g),
                    tableStates = map sid states\<rparr>))"

text \<open>The cell \<open>actions[s][t]\<close> of a table, when the row exists and holds \<open>t\<close>.\<close>

definition cell :: "(nat \<rightharpoonup> row) \<Rightarrow> nat \<Rightarrow> jstring \<Rightarrow> jstring option" where
  "cell tab s t = (case tab s of None \<Rightarrow> None | Some r \<Rightarrow> r t)"

section \<open>parseString\<close>

text \<open>
  \<open>parseInt\<close> without a radix: leading whitespace, a sign, the prefix \<open>0x\<close> for
  base 16, then the longest run of digits; \<open>NaN\<close> (here \<open>None\<close>) when there is no digit.
  The numbers of this program are state and production indices, far below the bound where
  a double stops being exact.
\<close>

definition digitValue :: "int \<Rightarrow> int" where
  "digitValue c =
     (if isDigit c then c - 48
      else if isLower c then c - 97 + 10
      else if isUpper c then c - 65 + 10
      else 36)"

definition parseDigits :: "int \<Rightarrow> jstring \<Rightarrow> int option" where
  "parseDigits radix s =
     (case takeWhile (\<lambda>c. digitValue c < radix) s of
        [] \<Rightarrow> None
      | d # ds \<Rightarrow> Some (foldl (\<lambda>acc c. acc * radix + digitValue c) 0 (d # ds)))"

definition parseUnsigned :: "jstring \<Rightarrow> int option" where
  "parseUnsigned s =
     (if take 2 s = str ''0x'' \<or> take 2 s = str ''0X'' then parseDigits 16 (drop 2 s)
      else parseDigits 10 s)"

definition parseInt :: "jstring \<Rightarrow> int option" where
  "parseInt s =
     (case dropWhile isSpace s of
        [] \<Rightarrow> None
      | c # cs \<Rightarrow>
          if c = 45 then map_option uminus (parseUnsigned cs)
          else if c = 43 then parseUnsigned cs
          else parseUnsigned (c # cs))"

text \<open>
  The stack holds tokens and numbers; a number that \<open>parseInt\<close> could not read is
  \<open>NaN\<close>. \<open>showNumber\<close> prints a number as a template literal does.
\<close>

datatype stackEntry = Token jstring | Number "int option"

definition showNumber :: "int option \<Rightarrow> jstring" where
  "showNumber v =
     (case v of
        None \<Rightarrow> str ''NaN''
      | Some i \<Rightarrow> if i < 0 then str ''-'' @ showNat (nat (- i)) else showNat (nat i))"

text \<open>
  The top of the stack, read as the current state, and printed: the stack may be empty
  after a reduction, and then the top is \<open>undefined\<close>.
\<close>

definition showTop :: "stackEntry list \<Rightarrow> jstring" where
  "showTop stack =
     (if stack = [] then str ''undefined''
      else (case last stack of Token t \<Rightarrow> t | Number v \<Rightarrow> showNumber v))"

text \<open>
  \<open>table[top]\<close>: the tables have a row for each state id and for nothing else, so only a
  number that is a state id finds a row. A token is never on top of the stack: the
  entries are pushed as a token followed by a number, and removed in even numbers from a
  stack of odd length, or all at once.
\<close>

definition rowAt :: "(nat \<rightharpoonup> row) \<Rightarrow> stackEntry list \<Rightarrow> row option" where
  "rowAt tab stack =
     (if stack = [] then None
      else (case last stack of
              Token t \<Rightarrow> None
            | Number None \<Rightarrow> None
            | Number (Some i) \<Rightarrow> if 0 \<le> i then tab (nat i) else None))"

text \<open>
  \<open>row?.[key]\<close>, and how a template literal prints the value read: an inherited member
  is a built-in function (for \<open>__proto__\<close>, the prototype object itself).
\<close>

definition readCell :: "row option \<Rightarrow> jstring \<Rightarrow> property" where
  "readCell r key = (case r of None \<Rightarrow> Undefined | Some r' \<Rightarrow> getProp r' key)"

definition showInherited :: "jstring \<Rightarrow> jstring" where
  "showInherited k =
     (if k = str ''__proto__'' then str ''[object Object]''
      else if k = str ''constructor'' then str ''function Object() { [native code] }''
      else str ''function '' @ k @ str ''() { [native code] }'')"

text \<open>
  \<open>stack.splice(-popCount)\<close> removes the last \<open>popCount\<close> entries, except that
  \<open>-0\<close> is \<open>0\<close>: \<open>splice(0)\<close> removes every entry from index 0 on.
\<close>

definition spliceLast :: "nat \<Rightarrow> stackEntry list \<Rightarrow> stackEntry list" where
  "spliceLast popCount stack =
     (if popCount = 0 then [] else take (length stack - popCount) stack)"

text \<open>\<open>grammar.productions[productionId]\<close>: \<open>undefined\<close> unless the index is in range.\<close>

definition productionAt :: "grammar \<Rightarrow> int option \<Rightarrow> production option" where
  "productionAt g v =
     (case v of
        None \<Rightarrow> None
      | Some i \<Rightarrow>
          if 0 \<le> i \<and> nat i < length (productions g) then Some (productions g ! nat i)
          else None)"

record parseResult =
  isValid :: bool
  steps :: "jstring list"

text \<open>
  One reduction, after the action string has been read: either the function returns
  (\<open>Inl\<close> of the outcome), or the loop goes on with a new stack and trace.
\<close>

definition reduceStep ::
  "grammar \<Rightarrow> parsingTable \<Rightarrow> jstring \<Rightarrow> stackEntry list \<Rightarrow> jstring list \<Rightarrow>
   (error + parseResult) + (stackEntry list \<times> jstring list)" where
  "reduceStep g tbl action stack trace =
     (case productionAt g (parseInt (drop 1 action)) of
        None \<Rightarrow> Inl (Inl TypeError)
      | Some p \<Rightarrow>
          if length (rhs p) * 2 > length stack then
            Inl (Inr \<lparr>isValid = False,
                      steps = trace @ [str ''Error: Stack underflow during reduction'']\<rparr>)
          else
            let stack' = spliceLast (length (rhs p) * 2) stack
            in (case readCell (rowAt (gotos tbl) stack') (lhs p) of
                  Undefined \<Rightarrow>
                    Inl (Inr \<lparr>isValid = False,
                              steps = trace @ [str ''Error: No goto state found for '' @ lhs p @
                                               str '' in state '' @ showTop stack']\<rparr>)
                | Str v \<Rightarrow>
                    if v = [] then
                      Inl (Inr \<lparr>isValid = False,
                                steps = trace @ [str ''Error: No goto state found for '' @ lhs p @
                                                 str '' in state '' @ showTop stack']\<rparr>)
                    else
                      Inr (stack' @ [Token (lhs p), Number (parseInt v)],
                           trace @ [str ''Reduce: '' @ lhs p @ str '' -> '' @
                                    join (str '' '') (rhs p) @ str '' and go to state '' @ v])
                | Inherited k \<Rightarrow>
                    Inr (stack' @ [Token (lhs p), Number (parseInt (showInherited k))],
                         trace @ [str ''Reduce: '' @ lhs p @ str '' -> '' @
                                  join (str '' '') (rhs p) @ str '' and go to state '' @
                                  showInherited k])))"

text \<open>
  The loop \<open>while (true)\<close>. The first argument bounds the number of iterations;
  \<open>None\<close> says that the function did not return within that many. Reading
  \<open>tokens[pointer]\<close> beyond the end gives \<open>undefined\<close>, which is looked up and printed
  as the string of that name. An action that is a string but neither the accept entry nor
  a shift nor a reduce entry changes nothing, and the loop runs again.
\<close>

fun parseLoop ::
  "nat \<Rightarrow> grammar \<Rightarrow> parsingTable \<Rightarrow> jstring list \<Rightarrow> stackEntry list \<Rightarrow> nat \<Rightarrow>
   jstring list \<Rightarrow> (error + parseResult) option" where
  "parseLoop 0 g tbl tokens stack pointer trace = None"
| "parseLoop (Suc n) g tbl tokens stack pointer trace =
     (let currentToken = (if pointer < length tokens then tokens ! pointer else str ''undefined'')
      in case readCell (rowAt (actions tbl) stack) currentToken of
           Undefined \<Rightarrow>
             Some (Inr \<lparr>isValid = False,
                        steps = trace @ [str ''Error: No action found for state '' @
                                         showTop stack @ str '' and token '' @ currentToken]\<rparr>)
         | Inherited k \<Rightarrow> Some (Inl TypeError)
         | Str action \<Rightarrow>
             if action = [] then
               Some (Inr \<lparr>isValid = False,
                          steps = trace @ [str ''Error: No action found for state '' @
                                           showTop stack @ str '' and token '' @ currentToken]\<rparr>)
             else if action = str ''acc'' then
               Some (Inr \<lparr>isValid = True, steps = trace @ [str ''String accepted!'']\<rparr>)
             else if startsWith action (str ''s'') then
               parseLoop n g tbl tokens
                 (stack @ [Token currentToken, Number (parseInt (drop 1 action))])
                 (pointer + 1)
                 (trace @ [str ''Shift: '' @ currentToken @ str '' and go to state '' @
                           showNumber (parseInt (drop 1 action))])
             else if startsWith action (str ''r'') then
               (case reduceStep g tbl action stack trace of
                  Inl outcome \<Rightarrow> Some outcome
                | Inr (stack', trace') \<Rightarrow> parseLoop n g tbl tokens stack' pointer trace')
             else parseLoop n g tbl tokens stack pointer trace)"

definition parseString :: "nat \<Rightarrow> grammar \<Rightarrow> parsingTable \<Rightarrow> jstring \<Rightarrow> (error + parseResult) option" where
  "parseString n g tbl input =
     parseLoop n g tbl (splitSpaces input @ [str ''$'']) [Number (Some 0)] 0 []"

section \<open>Well-formed productions\<close>

text \<open>
  What \<open>parseGrammar\<close> lets through: a symbol of a right-hand side is the epsilon
  marker, a terminal or a nonterminal; the productions read from the lines have a
  nonterminal on the left and a positive id.
\<close>

definition symbolOk :: "jstring \<Rightarrow> bool" where
  "symbolOk x \<longleftrightarrow> x = epsilon \<or> isTerminalToken x \<or> isNonTerminalToken x"

definition productionOk :: "production \<Rightarrow> bool" where
  "productionOk p \<longleftrightarrow> isNonTerminalToken (lhs p) \<and> 0 < pid p \<and> list_all symbolOk (rhs p)"

section \<open>Invariants and examples\<close>

text \<open>
  What every item of the pipeline satisfies: its production is one of the grammar's, and
  its lookahead is one terminal.
\<close>

definition itemOk :: "grammar \<Rightarrow> item \<Rightarrow> bool" where
  "itemOk g it \<longleftrightarrow>
     production it \<in> set (productions g) \<and>
     length (lookahead it) = 1 \<and> lookahead it ! 0 \<in> set (terminals g)"

definition stateOk :: "grammar \<Rightarrow> state \<Rightarrow> bool" where
  "stateOk g st \<longleftrightarrow> list_all (itemOk g) (items st)"

text \<open>
  Two inputs used below, with the grammars that \<open>parseGrammar\<close> returns for them: one
  with the same line twice, and an ambiguous grammar of expressions, whose automaton has a
  state with a shift and a reduction on the same terminal.
\<close>

definition duplicateLines :: jstring where
  "duplicateLines = str ''S -> a'' @ [10] @ str ''S -> a''"

definition duplicateGrammar :: grammar where
  "duplicateGrammar =
     \<lparr>productions = [\<lparr>lhs = str ''S'' @ [39], rhs = [str ''S''], pid = 0\<rparr>,
                      \<lparr>lhs = str ''S'', rhs = [str ''a''], pid = 1\<rparr>,
                      \<lparr>lhs = str ''S'', rhs = [str ''a''], pid = 2\<rparr>],
      terminals = [str ''a'', str ''$''],
      nonTerminals = [str ''S'', str ''S'' @ [39]],
      startSymbol = str ''S'' @ [39]\<rparr>"

definition exprLines :: jstring where
  "exprLines = str ''E -> E p E'' @ [10] @ str ''E -> i''"

definition exprGrammar :: grammar where
  "exprGrammar =
     \<lparr>productions = [\<lparr>lhs = str ''E'' @ [39], rhs = [str ''E''], pid = 0\<rparr>,
                      \<lparr>lhs = str ''E'', rhs = [str ''E'', str ''p'', str ''E''], pid = 1\<rparr>,
                      \<lparr>lhs = str ''E'', rhs = [str ''i''], pid = 2\<rparr>],
      terminals = [str ''p'', str ''i'', str ''$''],
      nonTerminals = [str ''E'', str ''E'' @ [39]],
      startSymbol = str ''E'' @ [39]\<rparr>"

definition exprStates :: "state list" where
  "exprStates = (case generateClrItems 30 exprGrammar of Some (Inr states) \<Rightarrow> states | _ \<Rightarrow> [])"

definition exprDfa :: dfa where
  "exprDfa = (case generateDfa 30 exprStates exprGrammar of
                Some d \<Rightarrow> d | None \<Rightarrow> \<lparr>nodes = [], edges = []\<rparr>)"

text \<open>
  The two kinds of complete item that \<open>generateParsingTable\<close> tells apart: the item that
  sets the accept entry, and an item that asks for a reduce entry under the terminal \<open>t\<close>.
  \<open>completeStartItem\<close> is the complete item of production 0 with the lookahead \<open>$\<close>.
\<close>

definition acceptItem :: "grammar \<Rightarrow> item \<Rightarrow> bool" where
  "acceptItem g it \<longleftrightarrow>
     dotPosition it = length (rhs (production it)) \<and>
     lhs (production it) = startSymbol g \<and> endMarker \<in> set (lookahead it)"

definition reduceItemOn :: "grammar \<Rightarrow> jstring \<Rightarrow> item \<Rightarrow> bool" where
  "reduceItemOn g t it \<longleftrightarrow>
     dotPosition it = length (rhs (production it)) \<and>
     \<not> (lhs (production it) = startSymbol g \<and> endMarker \<in> set (lookahead it)) \<and>
     t \<in> set (lookahead it)"

definition completeStartItem :: "item \<Rightarrow> bool" where
  "completeStartItem it \<longleftrightarrow>
     dotPosition it = length (rhs (production it)) \<and> pid (production it) = 0 \<and>
     lookahead it = [endMarker]"

text \<open>
  The grammar that \<open>parseGrammar\<close> returns for the line \<open>S -> S\<close>, and its automaton.
\<close>

definition cyclicGrammar :: grammar where
  "cyclicGrammar =
     \<lparr>productions = [\<lparr>lhs = str ''S'' @ [39], rhs = [str ''S''], pid = 0\<rparr>,
                      \<lparr>lhs = str ''S'', rhs = [str ''S''], pid = 1\<rparr>],
      terminals = [str ''$''],
      nonTerminals = [str ''S'', str ''S'' @ [39]],
      startSymbol = str ''S'' @ [39]\<rparr>"

definition cyclicStates :: "state list" where
  "cyclicStates = (case generateClrItems 30 cyclicGrammar of Some (Inr states) \<Rightarrow> states | _ \<Rightarrow> [])"

definition cyclicDfa :: dfa where
  "cyclicDfa = (case generateDfa 30 cyclicStates cyclicGrammar of
                  Some d \<Rightarrow> d | None \<Rightarrow> \<lparr>nodes = [], edges = []\<rparr>)"

text \<open>
  For the termination of \<open>closure\<close>. \<open>continuation\<close> is the sequence that \<open>closure\<close>
  hands to \<open>computeFirst\<close> for an item, and \<open>callsFirst\<close> the test under which it does
  so: the dot stands before a nonterminal. \<open>reach\<close> holds the items that \<open>closure\<close> can
  come to hold from a starting list: the starting items and, for an item that passes the
  test, every item that the two inner loops build from it. A list is \<open>saturated\<close> when
  every item that the inner loops would build from one of its items is already in it, in
  the sense of \<open>itemsEqual\<close>, so that a further pass pushes nothing.
\<close>

definition continuation :: "item \<Rightarrow> jstring list" where
  "continuation it = drop (dotPosition it + 1) (rhs (production it)) @ lookahead it"

definition callsFirst :: "grammar \<Rightarrow> item \<Rightarrow> bool" where
  "callsFirst g it \<longleftrightarrow>
     dotPosition it < length (rhs (production it)) \<and>
     rhs (production it) ! dotPosition it \<in> set (nonTerminals g)"

inductive_set reach :: "grammar \<Rightarrow> item list \<Rightarrow> item set"
  for g :: grammar and items0 :: "item list" where
  start: "it \<in> set items0 \<Longrightarrow> it \<in> reach g items0"
| added: "it \<in> reach g items0 \<Longrightarrow> callsFirst g it \<Longrightarrow>
          computeFirst m g (continuation it) = Some firstSet \<Longrightarrow>
          p \<in> set (productions g) \<Longrightarrow> lhs p = rhs (production it) ! dotPosition it \<Longrightarrow>
          l \<in> set firstSet \<Longrightarrow> l \<noteq> epsilon \<Longrightarrow>
          \<lparr>production = p, dotPosition = 0, lookahead = [l]\<rparr> \<in> reach g items0"

definition itemSaturated :: "grammar \<Rightarrow> item list \<Rightarrow> item \<Rightarrow> bool" where
  "itemSaturated g result it \<longleftrightarrow>
     (\<forall>m firstSet. callsFirst g it \<longrightarrow> computeFirst m g (continuation it) = Some firstSet \<longrightarrow>
        (\<forall>p\<in>set (productions g). \<forall>l\<in>set firstSet.
           lhs p = rhs (production it) ! dotPosition it \<longrightarrow> l \<noteq> epsilon \<longrightarrow>
           list_ex (\<lambda>x. itemsEqual x \<lparr>production = p, dotPosition = 0, lookahead = [l]\<rparr>) result))"

definition saturated :: "grammar \<Rightarrow> item list \<Rightarrow> bool" where
  "saturated g result \<longleftrightarrow> (\<forall>it\<in>set result. itemSaturated g result it)"

text \<open>
  The items that \<open>closure\<close> can push (a production of the grammar, the dot at 0, one
  terminal as lookahead), the quantity that a pass leaves unchanged, and what a step of
  the loops does to the array and the flag.
\<close>

definition universe :: "grammar \<Rightarrow> item list" where
  "universe g =
     concat (map (\<lambda>p. map (\<lambda>t. \<lparr>production = p, dotPosition = 0, lookahead = [t]\<rparr>) (terminals g))
               (productions g))"

definition closureMeasure :: "grammar \<Rightarrow> item list \<Rightarrow> nat" where
  "closureMeasure g result = length result + card (set (universe g) - set result)"

definition grows :: "grammar \<Rightarrow> item list \<times> bool \<Rightarrow> item list \<times> bool \<Rightarrow> bool" where
  "grows g st st' \<longleftrightarrow>
     set (fst st) \<subseteq> set (fst st') \<and>
     set (fst st') \<subseteq> set (fst st) \<union> set (universe g) \<and>
     length (fst st) \<le> length (fst st') \<and>
     closureMeasure g (fst st') = closureMeasure g (fst st) \<and>
     (snd st' \<longrightarrow> snd st \<or> length (fst st) < length (fst st')) \<and>
     (\<not> snd st' \<longrightarrow> st' = st)"

text \<open>
  The grammar that \<open>parseGrammar\<close> returns for a list of \<open>b\<close> after an \<open>a\<close>, written
  with left recursion.
\<close>

definition listLines :: jstring where
  "listLines = str ''S -> A B'' @ [10] @ str ''A -> a'' @ [10] @ str ''B -> B b'' @ [10] @ str ''B -> b''"

definition listGrammar :: grammar where
  "listGrammar =
     \<lparr>productions = [\<lparr>lhs = str ''S'' @ [39], rhs = [str ''S''], pid = 0\<rparr>,
                      \<lparr>lhs = str ''S'', rhs = [str ''A'', str ''B''], pid = 1\<rparr>,
                      \<lparr>lhs = str ''A'', rhs = [str ''a''], pid = 2\<rparr>,
                      \<lparr>lhs = str ''B'', rhs = [str ''B'', str ''b''], pid = 3\<rparr>,
                      \<lparr>lhs = str ''B'', rhs = [str ''b''], pid = 4\<rparr>],
      terminals = [str ''a'', str ''b'', str ''$''],
      nonTerminals = [str ''S'', str ''A'', str ''B'', str ''S'' @ [39]],
      startSymbol = str ''S'' @ [39]\<rparr>"

text \<open>
  The grammar that \<open>parseGrammar\<close> returns for arithmetic expressions, left recursive in
  \<open>E\<close> and in \<open>T\<close>, and the item from which \<open>generateClrItems\<close> starts on it.
\<close>

definition arithLines :: jstring where
  "arithLines =
     str ''E -> E p T'' @ [10] @ str ''E -> T'' @ [10] @ str ''T -> T m F'' @ [10] @
     str ''T -> F'' @ [10] @ str ''F -> l E r'' @ [10] @ str ''F -> i''"

definition arithGrammar :: grammar where
  "arithGrammar =
     \<lparr>productions = [\<lparr>lhs = str ''E'' @ [39], rhs = [str ''E''], pid = 0\<rparr>,
                      \<lparr>lhs = str ''E'', rhs = [str ''E'', str ''p'', str ''T''], pid = 1\<rparr>,
                      \<lparr>lhs = str ''E'', rhs = [str ''T''], pid = 2\<rparr>,
                      \<lparr>lhs = str ''T'', rhs = [str ''T'', str ''m'', str ''F''], pid = 3\<rparr>,
                      \<lparr>lhs = str ''T'', rhs = [str ''F''], pid = 4\<rparr>,
                      \<lparr>lhs = str ''F'', rhs = [str ''l'', str ''E'', str ''r''], pid = 5\<rparr>,
                      \<lparr>lhs = str ''F'', rhs = [str ''i''], pid = 6\<rparr>],
      terminals = [str ''p'', str ''m'', str ''l'', str ''r'', str ''i'', str ''$''],
      nonTerminals = [str ''E'', str ''T'', str ''F'', str ''E'' @ [39]],
      startSymbol = str ''E'' @ [39]\<rparr>"

definition arithStart :: item where
  "arithStart =
     \<lparr>production = productions arithGrammar ! 0, dotPosition = 0, lookahead = [endMarker]\<rparr>"

section \<open>Properties of parseGrammar\<close>

text \<open>
  C3. A line whose right-hand side is the epsilon marker should give a production with
  the empty right-hand side. In the copy of src/lib/clr-parser.ts the comparison with a
  fresh array never holds, and the production keeps the one-element right-hand side that
  holds the marker; the second copy stores the empty sequence.
\<close>

theorem parseGrammar_keeps_epsilon_marker:
  "parseGrammar (str ''S -> '' @ epsilon) =
     Inr \<lparr>productions = [\<lparr>lhs = str ''S'' @ [39], rhs = [str ''S''], pid = 0\<rparr>,
                           \<lparr>lhs = str ''S'', rhs = [epsilon], pid = 1\<rparr>],
          terminals = [str ''$''],
          nonTerminals = [str ''S'', str ''S'' @ [39]],
          startSymbol = str ''S'' @ [39]\<rparr>"
  by code_simp

lemma parseGrammarCopy_epsilon_line:
  "parseGrammarCopy (str ''S -> '' @ epsilon) =
     Inr \<lparr>productions = [\<lparr>lhs = str ''S'' @ [39], rhs = [str ''S''], pid = 0\<rparr>,
                           \<lparr>lhs = str ''S'', rhs = [], pid = 1\<rparr>],
          terminals = [str ''$''],
          nonTerminals = [str ''S'', str ''S'' @ [39]],
          startSymbol = str ''S'' @ [39]\<rparr>"
  by code_simp

text \<open>
  C4. The two copies of \<open>parseGrammar\<close> should return equal grammars. On a line with
  the epsilon marker they do not: the grammars differ in the right-hand side of that
  production. (The other functions have the same text in the two files, comments apart,
  and are modelled once: on equal arguments the two copies of them return equal results.)
\<close>

theorem parseGrammar_copies_differ:
  "parseGrammar (str ''S -> '' @ epsilon) \<noteq> parseGrammarCopy (str ''S -> '' @ epsilon)"
  by code_simp

text \<open>
  C8. A line that ends with the arrow should be read as an epsilon production. The
  pattern asks for at least one code unit after the arrow, so the line is rejected as a
  malformed production, in both copies.
\<close>

theorem parseGrammar_rejects_bare_arrow:
  "parseGrammar (str ''S ->'') = Inl (Error (str ''Invalid production format: S ->'')) \<and>
   parseGrammarCopy (str ''S ->'') = Inl (Error (str ''Invalid production format: S ->''))"
  by code_simp

section \<open>What parseGrammar returns\<close>

lemma splitSpacesFrom_empty_piece:
  "[] \<in> set (splitSpacesFrom inws cur s) \<Longrightarrow>
     (cur = [] \<and> (s = [] \<or> (isSpace (hd s) \<and> \<not> inws))) \<or> (s \<noteq> [] \<and> isSpace (last s))"
proof (induction s arbitrary: inws cur)
  case Nil
  then show ?case by simp
next
  case (Cons c cs)
  show ?case
  proof (cases "isSpace c")
    case True
    show ?thesis
    proof (cases inws)
      case True
      with \<open>isSpace c\<close> Cons.prems have "[] \<in> set (splitSpacesFrom True cur cs)" by simp
      from Cons.IH[OF this] \<open>isSpace c\<close> show ?thesis by auto
    next
      case False
      with \<open>isSpace c\<close> Cons.prems have "cur = [] \<or> [] \<in> set (splitSpacesFrom True [] cs)" by auto
      then show ?thesis
      proof
        assume "cur = []" with \<open>isSpace c\<close> False show ?thesis by simp
      next
        assume "[] \<in> set (splitSpacesFrom True [] cs)"
        from Cons.IH[OF this] \<open>isSpace c\<close> show ?thesis by auto
      qed
    qed
  next
    case False
    with Cons.prems have "[] \<in> set (splitSpacesFrom False (cur @ [c]) cs)" by simp
    from Cons.IH[OF this] show ?thesis by auto
  qed
qed

lemma splitSpacesFrom_no_space:
  "x \<in> set (splitSpacesFrom inws cur s) \<Longrightarrow> list_all (\<lambda>c. \<not> isSpace c) cur \<Longrightarrow>
   list_all (\<lambda>c. \<not> isSpace c) x"
  by (induction s arbitrary: inws cur) (auto split: if_splits)

lemma trim_ends:
  assumes "trim s \<noteq> []"
  shows "\<not> isSpace (hd (trim s))" and "\<not> isSpace (last (trim s))"
proof -
  let ?a = "dropWhile isSpace s"
  let ?b = "dropWhile isSpace (rev ?a)"
  from assms have b: "?b \<noteq> []" by (simp add: trim_def)
  have a: "?a \<noteq> []"
  proof
    assume e: "?a = []"
    from b show False unfolding e by simp
  qed
  have "last (trim s) = hd ?b" using b by (simp add: trim_def last_rev)
  moreover have "\<not> isSpace (hd ?b)" using b hd_dropWhile by blast
  ultimately show "\<not> isSpace (last (trim s))" by simp
  have "hd (trim s) = last ?b" using b by (simp add: trim_def hd_rev)
  also have "last ?b = last (rev ?a)"
    by (metis append_Nil2 b last_appendR takeWhile_dropWhile_id)
  also have "\<dots> = hd ?a" using a by (simp add: last_rev)
  finally have "hd (trim s) = hd ?a" .
  moreover have "\<not> isSpace (hd ?a)" using a hd_dropWhile by blast
  ultimately show "\<not> isSpace (hd (trim s))" by simp
qed

lemma splitSpaces_trim_pieces:
  assumes "trim s \<noteq> []" "x \<in> set (splitSpaces (trim s))"
  shows "x \<noteq> [] \<and> list_all (\<lambda>c. \<not> isSpace c) x"
proof
  show "x \<noteq> []"
  proof
    assume "x = []"
    with assms(2) have "[] \<in> set (splitSpacesFrom False [] (trim s))" by (simp add: splitSpaces_def)
    from splitSpacesFrom_empty_piece[OF this] trim_ends[OF assms(1)] assms(1) show False by auto
  qed
  show "list_all (\<lambda>c. \<not> isSpace c) x"
    using assms(2) splitSpacesFrom_no_space[of x False "[]" "trim s"] by (simp add: splitSpaces_def)
qed

lemma scanSymbols_ok:
  "scanSymbols syms st = Inr st' \<Longrightarrow> [] \<notin> set syms \<Longrightarrow> list_all symbolOk syms"
  by (induction syms st arbitrary: st' rule: scanSymbols.induct)
     (auto simp: symbolOk_def split: if_splits)

lemma matchLine_lhs: "matchLine line = Some (l, r) \<Longrightarrow> isNonTerminalToken l"
  by (auto simp: matchLine_def isNonTerminalToken_def Let_def list_all_iff
           split: list.splits if_splits dest: set_takeWhileD)

lemma parseLines_invariant:
  assumes "parseLines stored i lines (prods, ts, nts) = Inr (prods', ts', nts')"
    and "\<And>r. set (stored r) \<subseteq> set r"
    and "list_all productionOk prods"
  shows "list_all productionOk prods' \<and> length prods' = length prods + length lines"
  using assms(1,3)
proof (induction lines arbitrary: i prods ts nts)
  case Nil
  then show ?case by simp
next
  case (Cons line rest)
  from Cons.prems(1) obtain l r where m: "matchLine line = Some (l, r)"
    by (cases "matchLine line") auto
  define rhs' where "rhs' = (if trim r = epsilon \<or> trim r = [] then [epsilon] else splitSpaces (trim r))"
  from Cons.prems(1) m obtain ts2 nts2 where
    sc: "scanSymbols rhs' (ts, setAdd l nts) = Inr (ts2, nts2)"
    and rec: "parseLines stored (i + 1) rest (prods @ [\<lparr>lhs = l, rhs = stored rhs', pid = i + 1\<rparr>], ts2, nts2)
              = Inr (prods', ts', nts')"
    by (auto simp: rhs'_def Let_def split: sum.splits)
  have "[] \<notin> set rhs'"
    using splitSpaces_trim_pieces[of r] by (auto simp: rhs'_def epsilon_def)
  with sc have "list_all symbolOk rhs'" by (rule scanSymbols_ok)
  with assms(2)[of rhs'] have "list_all symbolOk (stored rhs')" by (auto simp: list_all_iff)
  with matchLine_lhs[OF m]
  have "productionOk \<lparr>lhs = l, rhs = stored rhs', pid = i + 1\<rparr>"
    by (simp add: productionOk_def)
  with Cons.prems(2)
  have "list_all productionOk (prods @ [\<lparr>lhs = l, rhs = stored rhs', pid = i + 1\<rparr>])"
    by simp
  from Cons.IH[OF rec this] show ?case by simp
qed

lemma splitNewline_nonempty: "splitNewline s \<noteq> []"
  by (induction s) (auto split: list.splits)

lemma isNonTerminalToken_no_quote: "isNonTerminalToken s \<Longrightarrow> s \<noteq> t @ [39]"
proof
  assume a: "isNonTerminalToken s" and "s = t @ [39]"
  then have "39 \<in> set s" by simp
  with a show False
    by (cases s) (auto simp: isNonTerminalToken_def isUpper_def isAlnum_def isLower_def
        isDigit_def list_all_iff)
qed

lemma symbolOk_facts:
  assumes "symbolOk x"
  shows "x \<noteq> []" and "32 \<notin> set x" and "x \<noteq> endMarker"
  using assms
  by (auto simp: symbolOk_def epsilon_def isTerminalToken_def isNonTerminalToken_def
      isUpper_def isAlnum_def isLower_def isDigit_def list_all_iff endMarker_def
      split: list.splits)

lemma parseGrammarWith_shape:
  assumes "parseGrammarWith stored input = Inr g" and "\<And>r. set (stored r) \<subseteq> set r"
  shows "\<exists>S prods. productions g = \<lparr>lhs = S @ [39], rhs = [S], pid = 0\<rparr> # prods \<and>
           startSymbol g = S @ [39] \<and> isNonTerminalToken S \<and>
           endMarker \<in> set (terminals g) \<and> list_all productionOk prods"
proof -
  from assms(1) obtain prods ts nts where
    pl: "parseLines stored 0 (splitNewline (trim input)) ([], [], []) = Inr (prods, ts, nts)"
    by (auto simp: parseGrammarWith_def Let_def split: if_splits sum.splits)
  from parseLines_invariant[OF pl assms(2)]
  have ok: "list_all productionOk prods" and len: "length prods = length (splitNewline (trim input))"
    by simp_all
  from len splitNewline_nonempty[of "trim input"] obtain p ps where ps: "prods = p # ps"
    by (cases prods) auto
  from assms(1) pl ps have g: "g = \<lparr>productions = \<lparr>lhs = lhs p @ [39], rhs = [lhs p], pid = 0\<rparr> # prods,
       terminals = setAdd endMarker ts, nonTerminals = setAdd (lhs p @ [39]) nts,
       startSymbol = lhs p @ [39]\<rparr>"
    by (auto simp: parseGrammarWith_def Let_def split: if_splits)
  from ok ps have "isNonTerminalToken (lhs p)" by (simp add: productionOk_def)
  with g ok show ?thesis by (auto simp: setAdd_def)
qed

lemma stored_subset: "set (storedRhsLib r) \<subseteq> set r" "set (storedRhsCopy r) \<subseteq> set r"
  by (auto simp: storedRhsLib_def storedRhsCopy_def)

section \<open>Equality of items\<close>

lemma join_Cons: "join sep (x # xs) = (if xs = [] then x else x @ sep @ join sep xs)"
  by (cases xs) auto

lemma join_space_inject:
  assumes "\<forall>x\<in>set xs. x \<noteq> [] \<and> 32 \<notin> set x" "\<forall>y\<in>set ys. y \<noteq> [] \<and> 32 \<notin> set y"
    and "join (str '' '') xs = join (str '' '') ys"
  shows "xs = ys"
  using assms
proof (induction xs arbitrary: ys)
  case Nil
  then show ?case by (cases ys) (auto simp: join_Cons split: if_splits)
next
  case (Cons x xs)
  from Cons.prems obtain y ys' where ys: "ys = y # ys'"
    by (cases ys) (auto simp: join_Cons split: if_splits)
  from Cons.prems ys have fx: "32 \<notin> set x" and fy: "32 \<notin> set y" by auto
  let ?j = "join (str '' '') (x # xs)"
  have tx: "takeWhile (\<lambda>c. c \<noteq> 32) ?j = x"
    using fx by (auto simp: join_Cons takeWhile_eq_all_conv takeWhile_append)
  have ty: "takeWhile (\<lambda>c. c \<noteq> 32) (join (str '' '') (y # ys')) = y"
    using fy by (auto simp: join_Cons takeWhile_eq_all_conv takeWhile_append)
  from tx ty Cons.prems(3) ys have xy: "x = y" by simp
  show ?case
  proof (cases "xs = []")
    case True
    with Cons.prems(3) ys xy have "ys' = []" by (auto simp: join_Cons split: if_splits)
    with True xy ys show ?thesis by simp
  next
    case False
    with Cons.prems(3) ys xy have ne: "ys' \<noteq> []" by (auto simp: join_Cons split: if_splits)
    with False Cons.prems(3) ys xy have "join (str '' '') xs = join (str '' '') ys'"
      by (simp add: join_Cons)
    moreover from Cons.prems ys have "\<forall>x\<in>set xs. x \<noteq> [] \<and> 32 \<notin> set x"
      "\<forall>y\<in>set ys'. y \<noteq> [] \<and> 32 \<notin> set y" by auto
    ultimately have "xs = ys'" using Cons.IH by blast
    with xy ys show ?thesis by simp
  qed
qed

lemma arraysEqual_singleton:
  "length a = 1 \<Longrightarrow> length b = 1 \<Longrightarrow> arraysEqual a b \<longleftrightarrow> a = b"
  by (cases a; cases b) (auto simp: arraysEqual_def)

lemma parseGrammar_rhs_symbols:
  assumes "parseGrammar input = Inr g \<or> parseGrammarCopy input = Inr g"
    and "p \<in> set (productions g)"
  shows "\<forall>x\<in>set (rhs p). x \<noteq> [] \<and> 32 \<notin> set x \<and> x \<noteq> endMarker"
proof -
  from assms(1) obtain stored where "parseGrammarWith stored input = Inr g"
    and "\<And>r. set (stored r) \<subseteq> set r"
    using stored_subset by (auto simp: parseGrammar_def parseGrammarCopy_def)
  from parseGrammarWith_shape[OF this] obtain S prods where
    g: "productions g = \<lparr>lhs = S @ [39], rhs = [S], pid = 0\<rparr> # prods"
    and S: "isNonTerminalToken S" and ok: "list_all productionOk prods" by blast
  from S have "symbolOk S" by (simp add: symbolOk_def)
  with assms(2) g ok have "list_all symbolOk (rhs p)"
    by (auto simp: list_all_iff productionOk_def)
  then show ?thesis using symbolOk_facts by (auto simp: list_all_iff)
qed

text \<open>
  C9, as the code has it. For items of a grammar that \<open>parseGrammar\<close> returned, each with
  one lookahead, \<open>itemsEqual\<close> holds exactly when the two productions have the same
  left-hand side and the same right-hand side, and the dot positions and the lookaheads
  agree. The production id is not compared.
\<close>

theorem itemsEqual_iff_same_text:
  assumes "parseGrammar input = Inr g \<or> parseGrammarCopy input = Inr g"
    and "production i1 \<in> set (productions g)" and "production i2 \<in> set (productions g)"
    and "length (lookahead i1) = 1" and "length (lookahead i2) = 1"
  shows "itemsEqual i1 i2 \<longleftrightarrow>
           lhs (production i1) = lhs (production i2) \<and>
           rhs (production i1) = rhs (production i2) \<and>
           dotPosition i1 = dotPosition i2 \<and>
           lookahead i1 = lookahead i2"
proof -
  have "join (str '' '') (rhs (production i1)) = join (str '' '') (rhs (production i2))
        \<longleftrightarrow> rhs (production i1) = rhs (production i2)"
    using join_space_inject[of "rhs (production i1)" "rhs (production i2)"]
      parseGrammar_rhs_symbols[OF assms(1,2)] parseGrammar_rhs_symbols[OF assms(1,3)]
    by auto
  then show ?thesis
    using arraysEqual_singleton[OF assms(4,5)] by (auto simp: itemsEqual_def)
qed

theorem itemsEqual_iff_same_text_witness:
  "parseGrammar duplicateLines = Inr duplicateGrammar \<and>
   (itemsEqual
      \<lparr>production = productions duplicateGrammar ! 1, dotPosition = 0, lookahead = [endMarker]\<rparr>
      \<lparr>production = productions duplicateGrammar ! 0, dotPosition = 0, lookahead = [endMarker]\<rparr>
    \<longleftrightarrow> False)"
proof -
  let ?i1 = "\<lparr>production = productions duplicateGrammar ! 1, dotPosition = 0, lookahead = [endMarker]\<rparr>"
  let ?i2 = "\<lparr>production = productions duplicateGrammar ! 0, dotPosition = 0, lookahead = [endMarker]\<rparr>"
  have h1: "parseGrammar duplicateLines = Inr duplicateGrammar" by code_simp
  then have h1': "parseGrammar duplicateLines = Inr duplicateGrammar \<or>
                  parseGrammarCopy duplicateLines = Inr duplicateGrammar" by simp
  have h2: "production ?i1 \<in> set (productions duplicateGrammar)"
    and h3: "production ?i2 \<in> set (productions duplicateGrammar)"
    by (simp_all add: duplicateGrammar_def)
  have h4: "length (lookahead ?i1) = 1" and h5: "length (lookahead ?i2) = 1" by simp_all
  from itemsEqual_iff_same_text[OF h1' h2 h3 h4 h5] h1 show ?thesis
    by (simp add: duplicateGrammar_def)
qed

text \<open>
  The claim as stated fails: when a grammar has the same line twice, the items of the two
  productions are equal for \<open>itemsEqual\<close> although the production ids differ.
\<close>

theorem itemsEqual_ignores_production_id:
  "parseGrammar duplicateLines = Inr duplicateGrammar \<and>
   itemsEqual
     \<lparr>production = productions duplicateGrammar ! 1, dotPosition = 0, lookahead = [endMarker]\<rparr>
     \<lparr>production = productions duplicateGrammar ! 2, dotPosition = 0, lookahead = [endMarker]\<rparr> \<and>
   pid (productions duplicateGrammar ! 1) \<noteq> pid (productions duplicateGrammar ! 2)"
  by code_simp

section \<open>Lookaheads of the generated items\<close>

lemma set_setAdd: "set (setAdd x xs) = insert x (set xs)"
  by (auto simp: setAdd_def)

lemma set_addAll: "set (addAll new s) = set new \<union> set s"
proof -
  have "set (foldl (\<lambda>acc x. setAdd x acc) s new) = set new \<union> set s" for s
    by (induction new arbitrary: s) (auto simp: set_setAdd)
  then show ?thesis by (simp add: addAll_def)
qed

lemma firstLoop_subset:
  assumes "\<And>s r. again s = Some r \<Longrightarrow> set r \<subseteq> A" and "epsilon \<in> A"
  shows "firstLoop again symbols ps first = Some r \<Longrightarrow> set first \<subseteq> A \<Longrightarrow> set r \<subseteq> A"
proof (induction ps arbitrary: first)
  case Nil
  then show ?case by simp
next
  case (Cons p ps)
  from Cons.prems(1) obtain first' where
    r: "firstLoop again symbols ps first' = Some r" and
    f: "first' = first \<or> first' = setAdd epsilon first \<or>
        (\<exists>x. again (drop 1 symbols) = Some x \<and> first' = addAll x (setAdd epsilon first)) \<or>
        (\<exists>y. again (rhs p) = Some y \<and>
           (first' = addAll (filter (\<lambda>s. s \<noteq> epsilon) y) first \<or>
            (\<exists>x. again (drop 1 symbols) = Some x \<and>
               first' = addAll x (addAll (filter (\<lambda>s. s \<noteq> epsilon) y) first))))"
    by (auto split: if_splits option.splits)
  from f assms Cons.prems(2) have "set first' \<subseteq> A"
    by (fastforce simp: set_setAdd set_addAll)
  from Cons.IH[OF r this] show ?case .
qed

lemma computeFirst_subset:
  "computeFirst n g symbols = Some r \<Longrightarrow> set r \<subseteq> insert epsilon (set (terminals g))"
proof (induction n arbitrary: symbols r)
  case 0
  then show ?case by simp
next
  case (Suc n)
  show ?case
  proof (cases "length symbols = 0 \<or> symbols ! 0 \<in> set (terminals g)")
    case True
    with Suc.prems show ?thesis by (auto split: if_splits)
  next
    case False
    with Suc.prems have "firstLoop (computeFirst n g) symbols (productions g) [] = Some r"
      by (simp split: if_splits)
    from firstLoop_subset[where again = "computeFirst n g", OF Suc.IH _ this] show ?thesis by simp
  qed
qed

lemma pushNew_ok:
  "list_all (itemOk g) result \<Longrightarrow> p \<in> set (productions g) \<Longrightarrow> set las \<subseteq> set (terminals g) \<Longrightarrow>
   list_all (itemOk g) (fst (pushNew p las (result, changed)))"
  by (induction las arbitrary: result changed) (auto simp: itemOk_def)

lemma expandProductions_ok:
  "list_all (itemOk g) (fst st) \<Longrightarrow> set ps \<subseteq> set (productions g) \<Longrightarrow>
   set firstSet \<subseteq> set (terminals g) \<Longrightarrow>
   list_all (itemOk g) (fst (expandProductions symb firstSet ps st))"
proof (induction ps arbitrary: st)
  case Nil
  then show ?case by simp
next
  case (Cons p ps)
  let ?st1 = "if lhs p = symb then pushNew p firstSet st else st"
  have "list_all (itemOk g) (fst ?st1)"
    using pushNew_ok[of g "fst st" p firstSet "snd st"] Cons.prems by simp
  from Cons.IH[OF this] Cons.prems show ?case by simp
qed

lemma closureItem_ok:
  assumes "closureItem n g it st = Some st'" "list_all (itemOk g) (fst st)"
  shows "list_all (itemOk g) (fst st')"
proof (cases "dotPosition it < length (rhs (production it)) \<and>
              rhs (production it) ! dotPosition it \<in> set (nonTerminals g)")
  case True
  with assms(1) obtain fs where
    f: "computeFirst n g (drop (dotPosition it + 1) (rhs (production it)) @ lookahead it) = Some fs"
    and e: "st' = expandProductions (rhs (production it) ! dotPosition it)
                    (removeAll epsilon fs) (productions g) st"
    by (auto simp: closureItem_def split: option.splits)
  from computeFirst_subset[OF f] have "set (removeAll epsilon fs) \<subseteq> set (terminals g)" by auto
  with e assms(2) show ?thesis by (simp add: expandProductions_ok)
next
  case False
  with assms show ?thesis by (auto simp: closureItem_def split: if_splits)
qed

lemma closurePass_ok:
  "closurePass n g i st = Some st' \<Longrightarrow> list_all (itemOk g) (fst st) \<Longrightarrow>
   list_all (itemOk g) (fst st')"
proof (induction n arbitrary: i st)
  case 0
  then show ?case by simp
next
  case (Suc n)
  obtain result changed where st: "st = (result, changed)" by (cases st)
  show ?case
  proof (cases "i < length result")
    case True
    with Suc.prems st obtain st1 where
      a: "closureItem n g (result ! i) (result, changed) = Some st1"
      and b: "closurePass n g (i + 1) st1 = Some st'"
      by (auto split: option.splits)
    from closureItem_ok[OF a] Suc.prems st have "list_all (itemOk g) (fst st1)" by simp
    from Suc.IH[OF b this] show ?thesis .
  next
    case False
    with Suc.prems st show ?thesis by auto
  qed
qed

lemma closureLoop_ok:
  "closureLoop n g result = Some result' \<Longrightarrow> list_all (itemOk g) result \<Longrightarrow>
   list_all (itemOk g) result'"
proof (induction n arbitrary: result)
  case 0
  then show ?case by simp
next
  case (Suc n)
  from Suc.prems obtain r1 ch where
    a: "closurePass n g 0 (result, False) = Some (r1, ch)"
    by (auto split: option.splits)
  from closurePass_ok[OF a] Suc.prems have ok: "list_all (itemOk g) r1" by simp
  show ?case
  proof (cases ch)
    case True
    with Suc.prems a have "closureLoop n g r1 = Some result'" by simp
    from Suc.IH[OF this ok] show ?thesis .
  next
    case False
    with Suc.prems a ok show ?thesis by simp
  qed
qed

lemma goto_ok:
  assumes "goto n g its symbol = Some its'" "list_all (itemOk g) its"
  shows "list_all (itemOk g) its'"
proof -
  from assms(2) have "list_all (itemOk g) (advance symbol its)"
    by (auto simp: advance_def list_all_iff itemOk_def)
  with assms(1) show ?thesis
    by (auto simp: goto_def closure_def dest: closureLoop_ok)
qed

lemma exploreSymbols_ok:
  "exploreSymbols n g st syms (states, stateMap) = Some (states', stateMap') \<Longrightarrow>
   stateOk g st \<Longrightarrow> list_all (stateOk g) states \<Longrightarrow> map sid states = [0..<length states] \<Longrightarrow>
   list_all (stateOk g) states' \<and> map sid states' = [0..<length states'] \<and>
   length states \<le> length states'"
proof (induction syms arbitrary: states stateMap)
  case Nil
  then show ?case by simp
next
  case (Cons symbol rest)
  from Cons.prems(1) obtain gi where gi: "goto n g (items st) symbol = Some gi"
    by (auto split: option.splits)
  from goto_ok[OF gi] Cons.prems(2) have ok: "list_all (itemOk g) gi" by (simp add: stateOk_def)
  show ?case
  proof (cases "length gi > 0 \<and> stateMap (getStateSignature gi) = None")
    case True
    let ?new = "\<lparr>sid = length states, items = gi, kernel = Some (kernelOf st symbol gi)\<rparr>"
    from True Cons.prems(1) gi have
      r: "exploreSymbols n g st rest (states @ [?new],
            stateMap(getStateSignature gi \<mapsto> length states)) = Some (states', stateMap')"
      by simp
    have "stateOk g ?new" using ok by (simp add: stateOk_def)
    then have "list_all (stateOk g) (states @ [?new])" using Cons.prems(3) by simp
    moreover have "map sid (states @ [?new]) = [0..<length (states @ [?new])]"
      using Cons.prems(4) by simp
    ultimately show ?thesis using Cons.IH[OF r Cons.prems(2)] by simp
  next
    case False
    with Cons.prems(1) gi have
      "exploreSymbols n g st rest (states, stateMap) = Some (states', stateMap')"
      by (auto split: if_splits)
    from Cons.IH[OF this Cons.prems(2,3,4)] show ?thesis .
  qed
qed

lemma clrLoop_ok:
  "clrLoop n g i (states, stateMap) = Some states' \<Longrightarrow>
   list_all (stateOk g) states \<Longrightarrow> map sid states = [0..<length states] \<Longrightarrow>
   list_all (stateOk g) states' \<and> map sid states' = [0..<length states']"
proof (induction n arbitrary: i states stateMap)
  case 0
  then show ?case by simp
next
  case (Suc n)
  show ?case
  proof (cases "i < length states")
    case True
    with Suc.prems(1) obtain s1 m1 where
      a: "exploreSymbols n g (states ! i) (symbolsAfterDot (items (states ! i))) (states, stateMap)
          = Some (s1, m1)"
      and b: "clrLoop n g (i + 1) (s1, m1) = Some states'"
      by (auto split: option.splits)
    from True Suc.prems(2) have "stateOk g (states ! i)" by (simp add: list_all_length)
    from exploreSymbols_ok[OF a this Suc.prems(2,3)] Suc.IH[OF b] show ?thesis by simp
  next
    case False
    with Suc.prems show ?thesis by simp
  qed
qed

lemma generateClrItems_ok:
  assumes "generateClrItems n g = Some (Inr states)" "endMarker \<in> set (terminals g)"
  shows "list_all (stateOk g) states \<and> map sid states = [0..<length states]"
proof -
  from assms(1) obtain p0 ps where p: "productions g = p0 # ps"
    by (cases "productions g") (auto simp: generateClrItems_def)
  let ?i0 = "\<lparr>production = p0, dotPosition = 0, lookahead = [endMarker]\<rparr>"
  from assms(1) p obtain ic where
    c: "closure n g [?i0] = Some ic"
    and l: "clrLoop n g 0 ([\<lparr>sid = 0, items = ic, kernel = Some [?i0]\<rparr>],
              [getStateSignature ic \<mapsto> 0]) = Some states"
    by (auto simp: generateClrItems_def split: option.splits)
  have "list_all (itemOk g) [?i0]" using p assms(2) by (simp add: itemOk_def)
  with c have "list_all (itemOk g) ic" by (auto simp: closure_def dest: closureLoop_ok)
  then have "list_all (stateOk g) [\<lparr>sid = 0, items = ic, kernel = Some [?i0]\<rparr>]"
    by (simp add: stateOk_def)
  from clrLoop_ok[OF l this] show ?thesis by simp
qed

text \<open>
  C10. Every item of every state that \<open>generateClrItems\<close> returns, for a grammar that
  \<open>parseGrammar\<close> returned, has exactly one lookahead, and it is a terminal of the
  grammar.
\<close>

theorem generated_items_single_lookahead:
  assumes "parseGrammar input = Inr g \<or> parseGrammarCopy input = Inr g"
    and "generateClrItems n g = Some (Inr states)"
    and "st \<in> set states" and "it \<in> set (items st)"
  shows "length (lookahead it) = 1 \<and> lookahead it ! 0 \<in> set (terminals g)"
proof -
  from assms(1) obtain stored where "parseGrammarWith stored input = Inr g"
    and "\<And>r. set (stored r) \<subseteq> set r"
    using stored_subset by (auto simp: parseGrammar_def parseGrammarCopy_def)
  from parseGrammarWith_shape[OF this] have "endMarker \<in> set (terminals g)" by blast
  from generateClrItems_ok[OF assms(2) this] assms(3,4) show ?thesis
    by (auto simp: list_all_iff stateOk_def itemOk_def)
qed

theorem generated_items_single_lookahead_witness:
  "parseGrammar exprLines = Inr exprGrammar \<and>
   generateClrItems 30 exprGrammar = Some (Inr exprStates) \<and>
   length exprStates = 5 \<and> length (items (exprStates ! 4)) = 4 \<and>
   length (lookahead (items (exprStates ! 4) ! 3)) = 1 \<and>
   lookahead (items (exprStates ! 4) ! 3) ! 0 \<in> set (terminals exprGrammar)"
proof -
  have h1: "parseGrammar exprLines = Inr exprGrammar" by code_simp
  have h2: "generateClrItems 30 exprGrammar = Some (Inr exprStates)" by code_simp
  have l1: "length exprStates = 5" by code_simp
  have l2: "length (items (exprStates ! 4)) = 4" by code_simp
  have h3: "exprStates ! 4 \<in> set exprStates" using l1 by (simp add: nth_mem)
  have h4: "items (exprStates ! 4) ! 3 \<in> set (items (exprStates ! 4))" using l2 by (simp add: nth_mem)
  from generated_items_single_lookahead[OF disjI1[OF h1] h2 h3 h4] h1 h2 l1 l2
  show ?thesis by simp
qed

section \<open>The action table\<close>

lemma initTables_rows:
  "fst (initTables states) s = (if s \<in> sid ` set states then Some Map.empty else None)"
proof -
  have "fst (foldl (\<lambda>(acts, gts) st. (acts(sid st \<mapsto> Map.empty), gts(sid st \<mapsto> Map.empty)))
              (a, b) states) s
        = (if s \<in> sid ` set states then Some Map.empty else a s)"
    for a b :: "nat \<rightharpoonup> row"
    by (induction states arbitrary: a b) auto
  then show ?thesis by (simp add: initTables_def)
qed

lemma initTables_cell: "cell (fst (initTables states)) s t = None"
  by (simp add: cell_def initTables_rows)

lemma cell_upd:
  "cell (tab(s \<mapsto> r)) s' t = (if s' = s then r t else cell tab s' t)"
  by (simp add: cell_def)

lemma addEdge_cell:
  assumes "addEdge g e tabs = Inr tabs'" "cell (fst tabs') s t = Some v"
  shows "cell (fst tabs) s t = Some v \<or>
         (startsWith v (str ''s'') \<and> source e = s \<and> label e = t)"
proof (cases "label e \<in> set (terminals g)")
  case True
  with assms(1) obtain r where r: "fst tabs (source e) = Some r"
    and t': "fst tabs' = (fst tabs)(source e \<mapsto> setProp r (label e) (str ''s'' @ showNat (target e)))"
    by (auto simp: addEdge_def split: option.splits)
  from assms(2) r show ?thesis
    unfolding t' by (auto simp: cell_upd setProp_def startsWith_def cell_def split: if_splits)
next
  case False
  with assms(1) have "fst tabs' = fst tabs"
    by (auto simp: addEdge_def split: option.splits if_splits)
  with assms(2) show ?thesis by simp
qed

lemma addEdges_cell:
  "addEdges g es tabs = Inr tabs' \<Longrightarrow> cell (fst tabs') s t = Some v \<Longrightarrow>
   cell (fst tabs) s t = Some v \<or>
   (startsWith v (str ''s'') \<and> (\<exists>e\<in>set es. source e = s \<and> label e = t))"
proof (induction es arbitrary: tabs)
  case Nil
  then show ?case by simp
next
  case (Cons e es)
  from Cons.prems(1) obtain t1 where a: "addEdge g e tabs = Inr t1"
    and b: "addEdges g es t1 = Inr tabs'" by (auto split: sum.splits)
  from Cons.IH[OF b Cons.prems(2)] addEdge_cell[OF a] show ?case by auto
qed

lemma reduceLookaheads_keeps_shift:
  "reduceLookaheads p las r = Inr r' \<Longrightarrow> r t = Some v \<Longrightarrow> startsWith v (str ''s'') \<Longrightarrow>
   r' t = Some v"
proof (induction las arbitrary: r)
  case Nil
  then show ?case by simp
next
  case (Cons la las)
  from Cons.prems(1) obtain r1 where r1: "reduceLookaheads p las r1 = Inr r'"
    and c: "r1 = r \<or> (r1 = setProp r la (str ''r'' @ showNat p) \<and>
              (\<forall>w. r la = Some w \<longrightarrow> \<not> startsWith w (str ''s'')))"
    by (auto simp: getProp_def startsWith_def split: property.splits option.splits if_splits)
  from c Cons.prems(2,3) have "r1 t = Some v" by (auto simp: setProp_def)
  from Cons.IH[OF r1 this Cons.prems(3)] show ?case .
qed

lemma reduceLookaheads_other:
  "reduceLookaheads p las r = Inr r' \<Longrightarrow> t \<notin> set las \<Longrightarrow> r' t = r t"
proof (induction las arbitrary: r)
  case Nil
  then show ?case by simp
next
  case (Cons la las)
  from Cons.prems(1) obtain r1 where r1: "reduceLookaheads p las r1 = Inr r'"
    and c: "r1 = r \<or> r1 = setProp r la (str ''r'' @ showNat p)"
    by (auto simp: getProp_def split: property.splits option.splits if_splits)
  from c Cons.prems(2) have "r1 t = r t" by (auto simp: setProp_def)
  with Cons.IH[OF r1] Cons.prems(2) show ?case by simp
qed

lemma reduceLookaheads_value:
  "reduceLookaheads p las r = Inr r' \<Longrightarrow> r' t = Some v \<Longrightarrow>
   r t = Some v \<or> v = str ''r'' @ showNat p"
proof (induction las arbitrary: r)
  case Nil
  then show ?case by simp
next
  case (Cons la las)
  from Cons.prems(1) obtain r1 where r1: "reduceLookaheads p las r1 = Inr r'"
    and c: "r1 = r \<or> r1 = setProp r la (str ''r'' @ showNat p)"
    by (auto simp: getProp_def split: property.splits option.splits if_splits)
  from Cons.IH[OF r1 Cons.prems(2)] c show ?case by (auto simp: setProp_def split: if_splits)
qed

lemma reduceItem_cases:
  assumes "reduceItem g s it acts = Inr acts'"
  shows "(acts' = acts \<and> dotPosition it \<noteq> length (rhs (production it))) \<or>
         (\<exists>r. acts s = Some r \<and> acceptItem g it \<and>
              acts' = acts(s \<mapsto> setProp r endMarker (str ''acc''))) \<or>
         (\<exists>r r'. acts s = Some r \<and> dotPosition it = length (rhs (production it)) \<and>
              \<not> acceptItem g it \<and>
              reduceLookaheads (pid (production it)) (lookahead it) r = Inr r' \<and>
              acts' = acts(s \<mapsto> r'))"
  using assms
  by (auto simp: reduceItem_def acceptItem_def split: if_splits option.splits sum.splits)

lemma setProp_endMarker: "setProp r endMarker v = r(endMarker \<mapsto> v)"
  by (simp add: setProp_def endMarker_def)

lemma reduceItem_keeps_shift:
  assumes "reduceItem g s it acts = Inr acts'" "cell acts s' t = Some v" "startsWith v (str ''s'')"
    "t \<noteq> endMarker"
  shows "cell acts' s' t = Some v"
proof -
  from reduceItem_cases[OF assms(1)] consider
    (same) "acts' = acts"
    | (acc) r where "acts s = Some r" "acts' = acts(s \<mapsto> setProp r endMarker (str ''acc''))"
    | (red) r r' where "acts s = Some r"
        "reduceLookaheads (pid (production it)) (lookahead it) r = Inr r'" "acts' = acts(s \<mapsto> r')"
    by blast
  then show ?thesis
  proof cases
    case same
    with assms(2) show ?thesis by simp
  next
    case acc
    with assms(2,4) show ?thesis by (auto simp: cell_upd setProp_endMarker cell_def)
  next
    case red
    show ?thesis
    proof (cases "s' = s")
      case True
      with red(1) assms(2) have "r t = Some v" by (simp add: cell_def)
      from reduceLookaheads_keeps_shift[OF red(2) this assms(3)] True red(3)
      show ?thesis by (simp add: cell_upd)
    next
      case False
      with red(3) assms(2) show ?thesis by (simp add: cell_upd)
    qed
  qed
qed

lemma reduceItem_acc_origin:
  assumes "reduceItem g s it acts = Inr acts'" "cell acts' s' t = Some (str ''acc'')"
  shows "cell acts s' t = Some (str ''acc'') \<or> (s' = s \<and> t = endMarker \<and> acceptItem g it)"
proof -
  from reduceItem_cases[OF assms(1)] consider
    (same) "acts' = acts"
    | (acc) r where "acts s = Some r" "acceptItem g it"
        "acts' = acts(s \<mapsto> setProp r endMarker (str ''acc''))"
    | (red) r r' where "acts s = Some r"
        "reduceLookaheads (pid (production it)) (lookahead it) r = Inr r'" "acts' = acts(s \<mapsto> r')"
    by blast
  then show ?thesis
  proof cases
    case same
    with assms(2) show ?thesis by simp
  next
    case acc
    with assms(2) show ?thesis
      by (auto simp: cell_upd setProp_endMarker cell_def split: if_splits)
  next
    case red
    show ?thesis
    proof (cases "s' = s")
      case True
      with red(3) assms(2) have "r' t = Some (str ''acc'')" by (simp add: cell_upd)
      from reduceLookaheads_value[OF red(2) this] have "r t = Some (str ''acc'')" by auto
      with True red(1) show ?thesis by (simp add: cell_def)
    next
      case False
      with red(3) assms(2) show ?thesis by (simp add: cell_upd)
    qed
  qed
qed

lemma reduceItem_sets_acc:
  assumes "reduceItem g s it acts = Inr acts'" "acceptItem g it"
  shows "cell acts' s endMarker = Some (str ''acc'')"
  using reduceItem_cases[OF assms(1)] assms(2)
  by (auto simp: cell_upd setProp_endMarker acceptItem_def)

lemma reduceItem_keeps_acc:
  assumes "reduceItem g s it acts = Inr acts'" "cell acts s' endMarker = Some (str ''acc'')"
    "\<not> (s' = s \<and> reduceItemOn g endMarker it)"
  shows "cell acts' s' endMarker = Some (str ''acc'')"
proof -
  from reduceItem_cases[OF assms(1)] consider
    (same) "acts' = acts"
    | (acc) r where "acts s = Some r" "acceptItem g it"
        "acts' = acts(s \<mapsto> setProp r endMarker (str ''acc''))"
    | (red) r r' where "acts s = Some r" "dotPosition it = length (rhs (production it))"
        "\<not> acceptItem g it"
        "reduceLookaheads (pid (production it)) (lookahead it) r = Inr r'" "acts' = acts(s \<mapsto> r')"
    by blast
  then show ?thesis
  proof cases
    case same
    with assms(2) show ?thesis by simp
  next
    case acc
    with assms(2) show ?thesis by (auto simp: cell_upd setProp_endMarker)
  next
    case red
    show ?thesis
    proof (cases "s' = s")
      case True
      with assms(3) red(2,3) have "endMarker \<notin> set (lookahead it)"
        by (auto simp: reduceItemOn_def acceptItem_def)
      from reduceLookaheads_other[OF red(4) this] True red(1,5) assms(2)
      show ?thesis by (simp add: cell_upd cell_def)
    next
      case False
      with red(5) assms(2) show ?thesis by (simp add: cell_upd)
    qed
  qed
qed

lemma reduceItems_keeps_shift:
  "reduceItems g s its acts = Inr acts' \<Longrightarrow> cell acts s' t = Some v \<Longrightarrow>
   startsWith v (str ''s'') \<Longrightarrow> t \<noteq> endMarker \<Longrightarrow> cell acts' s' t = Some v"
proof (induction its arbitrary: acts)
  case Nil
  then show ?case by simp
next
  case (Cons it its)
  from Cons.prems(1) obtain a1 where a: "reduceItem g s it acts = Inr a1"
    and b: "reduceItems g s its a1 = Inr acts'" by (auto split: sum.splits)
  from reduceItem_keeps_shift[OF a Cons.prems(2,3,4)] Cons.IH[OF b _ Cons.prems(3,4)]
  show ?case by simp
qed

lemma reduceStates_keeps_shift:
  "reduceStates g sts acts = Inr acts' \<Longrightarrow> cell acts s' t = Some v \<Longrightarrow>
   startsWith v (str ''s'') \<Longrightarrow> t \<noteq> endMarker \<Longrightarrow> cell acts' s' t = Some v"
proof (induction sts arbitrary: acts)
  case Nil
  then show ?case by simp
next
  case (Cons st sts)
  from Cons.prems(1) obtain a1 where a: "reduceItems g (sid st) (items st) acts = Inr a1"
    and b: "reduceStates g sts a1 = Inr acts'" by (auto split: sum.splits)
  from reduceItems_keeps_shift[OF a Cons.prems(2,3,4)] Cons.IH[OF b _ Cons.prems(3,4)]
  show ?case by simp
qed

lemma reduceItems_acc_origin:
  "reduceItems g s its acts = Inr acts' \<Longrightarrow> cell acts' s' t = Some (str ''acc'') \<Longrightarrow>
   cell acts s' t = Some (str ''acc'') \<or>
   (s' = s \<and> t = endMarker \<and> (\<exists>it\<in>set its. acceptItem g it))"
proof (induction its arbitrary: acts)
  case Nil
  then show ?case by simp
next
  case (Cons it its)
  from Cons.prems(1) obtain a1 where a: "reduceItem g s it acts = Inr a1"
    and b: "reduceItems g s its a1 = Inr acts'" by (auto split: sum.splits)
  from Cons.IH[OF b Cons.prems(2)] reduceItem_acc_origin[OF a] show ?case by auto
qed

lemma reduceStates_acc_origin:
  "reduceStates g sts acts = Inr acts' \<Longrightarrow> cell acts' s' t = Some (str ''acc'') \<Longrightarrow>
   cell acts s' t = Some (str ''acc'') \<or>
   (t = endMarker \<and> (\<exists>st\<in>set sts. sid st = s' \<and> (\<exists>it\<in>set (items st). acceptItem g it)))"
proof (induction sts arbitrary: acts)
  case Nil
  then show ?case by simp
next
  case (Cons st sts)
  from Cons.prems(1) obtain a1 where a: "reduceItems g (sid st) (items st) acts = Inr a1"
    and b: "reduceStates g sts a1 = Inr acts'" by (auto split: sum.splits)
  from Cons.IH[OF b Cons.prems(2)] reduceItems_acc_origin[OF a] show ?case by auto
qed

lemma reduceItems_acc:
  "reduceItems g s its acts = Inr acts' \<Longrightarrow>
   cell acts s' endMarker = Some (str ''acc'') \<or> (s' = s \<and> (\<exists>it\<in>set its. acceptItem g it)) \<Longrightarrow>
   (s' = s \<Longrightarrow> \<forall>it\<in>set its. \<not> reduceItemOn g endMarker it) \<Longrightarrow>
   cell acts' s' endMarker = Some (str ''acc'')"
proof (induction its arbitrary: acts)
  case Nil
  then show ?case by simp
next
  case (Cons it its)
  from Cons.prems(1) obtain a1 where a: "reduceItem g s it acts = Inr a1"
    and b: "reduceItems g s its a1 = Inr acts'" by (auto split: sum.splits)
  have safe: "\<not> (s' = s \<and> reduceItemOn g endMarker it)" using Cons.prems(3) by auto
  have "cell a1 s' endMarker = Some (str ''acc'') \<or> (s' = s \<and> (\<exists>it\<in>set its. acceptItem g it))"
  proof (cases "cell acts s' endMarker = Some (str ''acc'')")
    case True
    from reduceItem_keeps_acc[OF a True safe] show ?thesis by simp
  next
    case False
    with Cons.prems(2) have s: "s' = s" and "acceptItem g it \<or> (\<exists>it\<in>set its. acceptItem g it)"
      by auto
    then show ?thesis using reduceItem_sets_acc[OF a] by auto
  qed
  from Cons.IH[OF b this] Cons.prems(3) show ?case by simp
qed

lemma reduceStates_acc:
  "reduceStates g sts acts = Inr acts' \<Longrightarrow>
   cell acts s' endMarker = Some (str ''acc'') \<or>
     (\<exists>st\<in>set sts. sid st = s' \<and> (\<exists>it\<in>set (items st). acceptItem g it)) \<Longrightarrow>
   \<forall>st\<in>set sts. sid st = s' \<longrightarrow> (\<forall>it\<in>set (items st). \<not> reduceItemOn g endMarker it) \<Longrightarrow>
   cell acts' s' endMarker = Some (str ''acc'')"
proof (induction sts arbitrary: acts)
  case Nil
  then show ?case by simp
next
  case (Cons st sts)
  from Cons.prems(1) obtain a1 where a: "reduceItems g (sid st) (items st) acts = Inr a1"
    and b: "reduceStates g sts a1 = Inr acts'" by (auto split: sum.splits)
  have "cell a1 s' endMarker = Some (str ''acc'') \<or>
        (\<exists>st\<in>set sts. sid st = s' \<and> (\<exists>it\<in>set (items st). acceptItem g it))"
  proof (cases "\<exists>st\<in>set sts. sid st = s' \<and> (\<exists>it\<in>set (items st). acceptItem g it)")
    case True
    then show ?thesis by simp
  next
    case False
    with Cons.prems(2) have "cell acts s' endMarker = Some (str ''acc'') \<or>
        (s' = sid st \<and> (\<exists>it\<in>set (items st). acceptItem g it))" by auto
    from reduceItems_acc[OF a this] Cons.prems(3) show ?thesis by simp
  qed
  from Cons.IH[OF b this] Cons.prems(3) show ?case by simp
qed

lemma shift_not_acc: "startsWith v (str ''s'') \<Longrightarrow> v \<noteq> str ''acc''"
  by (auto simp: startsWith_def)

lemma generateParsingTable_acc:
  assumes "generateParsingTable states d g = Inr tbl"
  shows "cell (actions tbl) s t = Some (str ''acc'') \<Longrightarrow>
           t = endMarker \<and> (\<exists>st\<in>set states. sid st = s \<and> (\<exists>it\<in>set (items st). acceptItem g it))"
    and "\<exists>st\<in>set states. sid st = s \<and> (\<exists>it\<in>set (items st). acceptItem g it) \<Longrightarrow>
         \<forall>st\<in>set states. sid st = s \<longrightarrow> (\<forall>it\<in>set (items st). \<not> reduceItemOn g endMarker it) \<Longrightarrow>
         cell (actions tbl) s endMarker = Some (str ''acc'')"
proof -
  from assms obtain tabs where e: "addEdges g (edges d) (initTables states) = Inr tabs"
    and r: "reduceStates g states (fst tabs) = Inr (actions tbl)"
    by (auto simp: generateParsingTable_def split: sum.splits)
  have noacc: "cell (fst tabs) s t \<noteq> Some (str ''acc'')"
    using addEdges_cell[OF e, of s t "str ''acc''"] shift_not_acc by (auto simp: initTables_cell)
  show "cell (actions tbl) s t = Some (str ''acc'') \<Longrightarrow>
           t = endMarker \<and> (\<exists>st\<in>set states. sid st = s \<and> (\<exists>it\<in>set (items st). acceptItem g it))"
    using reduceStates_acc_origin[OF r] noacc by auto
  show "\<exists>st\<in>set states. sid st = s \<and> (\<exists>it\<in>set (items st). acceptItem g it) \<Longrightarrow>
         \<forall>st\<in>set states. sid st = s \<longrightarrow> (\<forall>it\<in>set (items st). \<not> reduceItemOn g endMarker it) \<Longrightarrow>
         cell (actions tbl) s endMarker = Some (str ''acc'')"
    using reduceStates_acc[OF r] by simp
qed

lemma symbolsAfterDot_mem:
  assumes "x \<in> set (symbolsAfterDot its)"
  shows "\<exists>it\<in>set its. dotPosition it < length (rhs (production it)) \<and>
           x = rhs (production it) ! dotPosition it"
proof -
  let ?f = "\<lambda>symbols it.
              if dotPosition it < length (rhs (production it))
              then setAdd (rhs (production it) ! dotPosition it) symbols
              else symbols"
  have "x \<in> set (foldl ?f acc its) \<Longrightarrow>
        x \<in> set acc \<or> (\<exists>it\<in>set its. dotPosition it < length (rhs (production it)) \<and>
           x = rhs (production it) ! dotPosition it)" for acc
  proof (induction its arbitrary: acc)
    case Nil
    then show ?case by simp
  next
    case (Cons a its)
    from Cons.prems have "x \<in> set (foldl ?f (?f acc a) its)" by simp
    from Cons.IH[OF this] show ?case by (auto simp: set_setAdd split: if_splits)
  qed
  from this[of "[]"] assms show ?thesis by (simp add: symbolsAfterDot_def)
qed

lemma edgesOfSymbols_labels:
  "edgesOfSymbols n g states st syms es = Some es' \<Longrightarrow> e \<in> set es' \<Longrightarrow>
   e \<in> set es \<or> label e \<in> set syms"
proof (induction syms arbitrary: es)
  case Nil
  then show ?case by simp
next
  case (Cons symbol rest)
  from Cons.prems(1) obtain es1 where
    r: "edgesOfSymbols n g states st rest es1 = Some es'"
    and c: "es1 = es \<or> (\<exists>tg. es1 = es @ [\<lparr>source = sid st, target = tg, label = symbol\<rparr>])"
    by (auto split: option.splits if_splits)
  from Cons.IH[OF r Cons.prems(2)] c show ?case by auto
qed

lemma edgesOfStates_labels:
  "edgesOfStates n g states sts es = Some es' \<Longrightarrow> e \<in> set es' \<Longrightarrow>
   e \<in> set es \<or> (\<exists>st\<in>set sts. label e \<in> set (symbolsAfterDot (items st)))"
proof (induction sts arbitrary: es)
  case Nil
  then show ?case by simp
next
  case (Cons st sts)
  from Cons.prems(1) obtain es1 where
    a: "edgesOfSymbols n g states st (symbolsAfterDot (items st)) es = Some es1"
    and b: "edgesOfStates n g states sts es1 = Some es'"
    by (auto split: option.splits)
  from Cons.IH[OF b Cons.prems(2)] edgesOfSymbols_labels[OF a] show ?case by auto
qed

lemma generateDfa_labels:
  assumes "generateDfa n states g = Some d" "e \<in> set (edges d)"
  shows "\<exists>st\<in>set states. \<exists>it\<in>set (items st).
           dotPosition it < length (rhs (production it)) \<and>
           label e = rhs (production it) ! dotPosition it"
proof -
  from assms(1) obtain es where es: "edgesOfStates n g states states [] = Some es"
    and d: "edges d = es" by (auto simp: generateDfa_def)
  from edgesOfStates_labels[OF es, of e] assms(2) d
  obtain st where "st \<in> set states" "label e \<in> set (symbolsAfterDot (items st))" by auto
  with symbolsAfterDot_mem show ?thesis by blast
qed

lemma parseGrammar_start_production:
  assumes "parseGrammar input = Inr g \<or> parseGrammarCopy input = Inr g"
    and "p \<in> set (productions g)"
  shows "lhs p = startSymbol g \<longleftrightarrow> pid p = 0"
proof -
  from assms(1) obtain stored where "parseGrammarWith stored input = Inr g"
    and "\<And>r. set (stored r) \<subseteq> set r"
    using stored_subset by (auto simp: parseGrammar_def parseGrammarCopy_def)
  from parseGrammarWith_shape[OF this] obtain S prods where
    g: "productions g = \<lparr>lhs = S @ [39], rhs = [S], pid = 0\<rparr> # prods"
    and st: "startSymbol g = S @ [39]" and ok: "list_all productionOk prods" by blast
  show ?thesis
  proof (cases "p \<in> set prods")
    case True
    with ok have "isNonTerminalToken (lhs p)" "0 < pid p"
      by (auto simp: list_all_iff productionOk_def)
    with isNonTerminalToken_no_quote[of "lhs p" S] st show ?thesis by simp
  next
    case False
    with assms(2) g have "p = \<lparr>lhs = S @ [39], rhs = [S], pid = 0\<rparr>" by simp
    with st show ?thesis by simp
  qed
qed

lemma generated_state_index:
  assumes "map sid states = [0..<length states]" "st \<in> set states"
  shows "sid st < length states \<and> st = states ! sid st"
proof -
  from assms(2) obtain i where i: "i < length states" "st = states ! i"
    by (auto simp: in_set_conv_nth)
  from assms(1) i(1) have "map sid states ! i = i" by simp
  with i have "sid st = i" by simp
  with i show ?thesis by simp
qed

lemma generated_state_sid:
  assumes "map sid states = [0..<length states]" "s < length states"
  shows "sid (states ! s) = s"
proof -
  from assms have "map sid states ! s = s" by simp
  with assms(2) show ?thesis by simp
qed

lemma itemOk_accept:
  assumes "parseGrammar input = Inr g \<or> parseGrammarCopy input = Inr g" "itemOk g it"
  shows "acceptItem g it \<longleftrightarrow> completeStartItem it"
    and "reduceItemOn g endMarker it \<longleftrightarrow>
           dotPosition it = length (rhs (production it)) \<and> lookahead it = [endMarker] \<and>
           pid (production it) \<noteq> 0"
proof -
  from assms(2) have p: "production it \<in> set (productions g)" and l: "length (lookahead it) = 1"
    by (simp_all add: itemOk_def)
  from l obtain a where a: "lookahead it = [a]" by (cases "lookahead it") auto
  from parseGrammar_start_production[OF assms(1) p] a
  show "acceptItem g it \<longleftrightarrow> completeStartItem it"
    by (auto simp: acceptItem_def completeStartItem_def)
  from parseGrammar_start_production[OF assms(1) p] a
  show "reduceItemOn g endMarker it \<longleftrightarrow>
           dotPosition it = length (rhs (production it)) \<and> lookahead it = [endMarker] \<and>
           pid (production it) \<noteq> 0"
    by (auto simp: reduceItemOn_def)
qed

text \<open>
  C1, as the code has it. For a grammar that \<open>parseGrammar\<close> returned and the states
  that \<open>generateClrItems\<close> returned for it, a cell of the action table holds the accept
  entry only if it is the cell under \<open>$\<close> of a state that contains the complete item of
  production 0 with lookahead \<open>$\<close>; and the cell under \<open>$\<close> of such a state does hold
  the accept entry when no complete item of another production in that state has the
  lookahead \<open>$\<close>.
\<close>

theorem accept_cells:
  assumes "parseGrammar input = Inr g \<or> parseGrammarCopy input = Inr g"
    and "generateClrItems n g = Some (Inr states)"
    and "generateParsingTable states d g = Inr tbl"
  shows "(cell (actions tbl) s t = Some (str ''acc'') \<longrightarrow>
            t = endMarker \<and> s < length states \<and>
            (\<exists>it\<in>set (items (states ! s)). completeStartItem it)) \<and>
         (s < length states \<and> (\<exists>it\<in>set (items (states ! s)). completeStartItem it) \<and>
            (\<forall>it\<in>set (items (states ! s)).
               dotPosition it = length (rhs (production it)) \<and> lookahead it = [endMarker] \<longrightarrow>
               pid (production it) = 0) \<longrightarrow>
          cell (actions tbl) s endMarker = Some (str ''acc''))"
proof -
  from assms(1) obtain stored where "parseGrammarWith stored input = Inr g"
    and "\<And>r. set (stored r) \<subseteq> set r"
    using stored_subset by (auto simp: parseGrammar_def parseGrammarCopy_def)
  from parseGrammarWith_shape[OF this] have "endMarker \<in> set (terminals g)" by blast
  from generateClrItems_ok[OF assms(2) this]
  have ok: "list_all (stateOk g) states" and ix: "map sid states = [0..<length states]" by simp_all
  have iok: "itemOk g it" if "st \<in> set states" "it \<in> set (items st)" for st it
    using ok that by (auto simp: list_all_iff stateOk_def)
  have A: "t = endMarker \<and> s < length states \<and>
            (\<exists>it\<in>set (items (states ! s)). completeStartItem it)"
    if c: "cell (actions tbl) s t = Some (str ''acc'')"
  proof -
    from generateParsingTable_acc(1)[OF assms(3) c] obtain st it where
      t: "t = endMarker" and st: "st \<in> set states" "sid st = s"
      and it: "it \<in> set (items st)" "acceptItem g it" by blast
    from generated_state_index[OF ix st(1)] st(2) have s: "s < length states" "st = states ! s"
      by auto
    from itemOk_accept(1)[OF assms(1) iok[OF st(1) it(1)]] it(2) have "completeStartItem it" by simp
    with t s it(1) show ?thesis by auto
  qed
  have B: "cell (actions tbl) s endMarker = Some (str ''acc'')"
    if s: "s < length states" and e: "\<exists>it\<in>set (items (states ! s)). completeStartItem it"
      and o: "\<forall>it\<in>set (items (states ! s)).
               dotPosition it = length (rhs (production it)) \<and> lookahead it = [endMarker] \<longrightarrow>
               pid (production it) = 0"
  proof -
    from s have mem: "states ! s \<in> set states" by simp
    from e obtain it where it: "it \<in> set (items (states ! s))" "completeStartItem it" by blast
    from itemOk_accept(1)[OF assms(1) iok[OF mem it(1)]] it(2) have "acceptItem g it" by simp
    with mem it(1) generated_state_sid[OF ix s]
    have 1: "\<exists>st\<in>set states. sid st = s \<and> (\<exists>it\<in>set (items st). acceptItem g it)" by blast
    have 2: "\<forall>st\<in>set states. sid st = s \<longrightarrow> (\<forall>it\<in>set (items st). \<not> reduceItemOn g endMarker it)"
    proof (intro ballI impI)
      fix st it assume st: "st \<in> set states" "sid st = s" and i: "it \<in> set (items st)"
      from generated_state_index[OF ix st(1)] st(2) have "st = states ! s" by auto
      with o i have "dotPosition it = length (rhs (production it)) \<and> lookahead it = [endMarker] \<longrightarrow>
               pid (production it) = 0" by simp
      with itemOk_accept(2)[OF assms(1) iok[OF st(1) i]] show "\<not> reduceItemOn g endMarker it" by simp
    qed
    from generateParsingTable_acc(2)[OF assms(3) 1 2] show ?thesis .
  qed
  from A B show ?thesis by blast
qed

theorem accept_cells_witness:
  "parseGrammar exprLines = Inr exprGrammar \<and>
   generateClrItems 30 exprGrammar = Some (Inr exprStates) \<and>
   list_ex completeStartItem (items (exprStates ! 1)) \<and>
   (\<exists>tbl. generateParsingTable exprStates exprDfa exprGrammar = Inr tbl \<and>
          cell (actions tbl) 1 endMarker = Some (str ''acc''))"
proof -
  have h1: "parseGrammar exprLines = Inr exprGrammar" by code_simp
  have h2: "generateClrItems 30 exprGrammar = Some (Inr exprStates)" by code_simp
  have h3: "case generateParsingTable exprStates exprDfa exprGrammar of
              Inr tbl \<Rightarrow> True | Inl err \<Rightarrow> False" by code_simp
  then obtain tbl where t: "generateParsingTable exprStates exprDfa exprGrammar = Inr tbl"
    by (cases "generateParsingTable exprStates exprDfa exprGrammar") auto
  have p1: "1 < length exprStates" by code_simp
  have p2: "list_ex completeStartItem (items (exprStates ! 1))" by code_simp
  have p3: "list_all (\<lambda>it. \<not> (dotPosition it = length (rhs (production it)) \<and>
                lookahead it = [endMarker]) \<or> pid (production it) = 0) (items (exprStates ! 1))"
    by code_simp
  from accept_cells[OF disjI1[OF h1] h2 t, of 1 endMarker] p1 p2 p3
  have "cell (actions tbl) 1 endMarker = Some (str ''acc'')"
    by (auto simp: list_ex_iff list_all_iff)
  with h1 h2 p2 t show ?thesis by blast
qed

text \<open>
  The claim as stated fails: for the line \<open>S -> S\<close> state 1 holds the complete item of
  production 0 with lookahead \<open>$\<close> and, after it, the complete item of production 1 with
  the same lookahead, whose reduce entry replaces the accept entry.
\<close>

theorem accept_overwritten_by_reduce:
  "parseGrammar (str ''S -> S'') = Inr cyclicGrammar \<and>
   generateClrItems 30 cyclicGrammar = Some (Inr cyclicStates) \<and>
   generateDfa 30 cyclicStates cyclicGrammar = Some cyclicDfa \<and>
   list_ex completeStartItem (items (cyclicStates ! 1)) \<and>
   (case generateParsingTable cyclicStates cyclicDfa cyclicGrammar of
      Inr tbl \<Rightarrow> cell (actions tbl) 1 endMarker = Some (str ''r1'')
    | Inl err \<Rightarrow> False)"
  by code_simp

text \<open>
  C2. For a grammar that \<open>parseGrammar\<close> returned, its states and its automaton: a cell
  that holds an entry after the loop over the edges holds a shift entry, and the finished
  table holds the same entry there, whatever the complete items of the state ask for.
\<close>

theorem shift_not_overwritten:
  assumes "parseGrammar input = Inr g \<or> parseGrammarCopy input = Inr g"
    and "generateClrItems n g = Some (Inr states)"
    and "generateDfa m states g = Some d"
    and "addEdges g (edges d) (initTables states) = Inr tabs"
    and "generateParsingTable states d g = Inr tbl"
    and "cell (fst tabs) s t = Some v"
  shows "startsWith v (str ''s'') \<and> cell (actions tbl) s t = Some v"
proof -
  from assms(1) obtain stored where "parseGrammarWith stored input = Inr g"
    and "\<And>r. set (stored r) \<subseteq> set r"
    using stored_subset by (auto simp: parseGrammar_def parseGrammarCopy_def)
  from parseGrammarWith_shape[OF this] have "endMarker \<in> set (terminals g)" by blast
  from generateClrItems_ok[OF assms(2) this] have ok: "list_all (stateOk g) states" by simp
  from addEdges_cell[OF assms(4,6)] obtain e where
    v: "startsWith v (str ''s'')" and e: "e \<in> set (edges d)" "label e = t"
    by (auto simp: initTables_cell)
  from generateDfa_labels[OF assms(3) e(1)] obtain st it where
    st: "st \<in> set states" and it: "it \<in> set (items st)"
    and l: "dotPosition it < length (rhs (production it))"
           "label e = rhs (production it) ! dotPosition it" by blast
  from ok st it have "production it \<in> set (productions g)"
    by (auto simp: list_all_iff stateOk_def itemOk_def)
  from parseGrammar_rhs_symbols[OF assms(1) this] l e(2) have ne: "t \<noteq> endMarker"
    by (metis nth_mem)
  from assms(5,4) have "reduceStates g states (fst tabs) = Inr (actions tbl)"
    by (auto simp: generateParsingTable_def split: sum.splits)
  from reduceStates_keeps_shift[OF this assms(6) v ne] v show ?thesis by simp
qed

theorem shift_not_overwritten_witness:
  "parseGrammar exprLines = Inr exprGrammar \<and>
   generateClrItems 30 exprGrammar = Some (Inr exprStates) \<and>
   generateDfa 30 exprStates exprGrammar = Some exprDfa \<and>
   list_ex (reduceItemOn exprGrammar (str ''p'')) (items (exprStates ! 4)) \<and>
   (\<exists>tabs tbl. addEdges exprGrammar (edges exprDfa) (initTables exprStates) = Inr tabs \<and>
      generateParsingTable exprStates exprDfa exprGrammar = Inr tbl \<and>
      cell (fst tabs) 4 (str ''p'') = Some (str ''s3'') \<and>
      cell (actions tbl) 4 (str ''p'') = Some (str ''s3''))"
proof -
  have h1: "parseGrammar exprLines = Inr exprGrammar" by code_simp
  have h2: "generateClrItems 30 exprGrammar = Some (Inr exprStates)" by code_simp
  have h3: "generateDfa 30 exprStates exprGrammar = Some exprDfa" by code_simp
  have h4: "case addEdges exprGrammar (edges exprDfa) (initTables exprStates) of
              Inr tabs \<Rightarrow> cell (fst tabs) 4 (str ''p'') = Some (str ''s3'') | Inl err \<Rightarrow> False"
    by code_simp
  then obtain tabs where tabs: "addEdges exprGrammar (edges exprDfa) (initTables exprStates) = Inr tabs"
    and c: "cell (fst tabs) 4 (str ''p'') = Some (str ''s3'')"
    by (cases "addEdges exprGrammar (edges exprDfa) (initTables exprStates)") auto
  have h5: "case generateParsingTable exprStates exprDfa exprGrammar of
              Inr tbl \<Rightarrow> True | Inl err \<Rightarrow> False" by code_simp
  then obtain tbl where t: "generateParsingTable exprStates exprDfa exprGrammar = Inr tbl"
    by (cases "generateParsingTable exprStates exprDfa exprGrammar") auto
  have h6: "list_ex (reduceItemOn exprGrammar (str ''p'')) (items (exprStates ! 4))" by code_simp
  from shift_not_overwritten[OF disjI1[OF h1] h2 h3 tabs t c]
  have "cell (actions tbl) 4 (str ''p'') = Some (str ''s3'')" by simp
  with h1 h2 h3 h6 tabs t c show ?thesis by blast
qed

section \<open>Termination of closure\<close>

text \<open>
  More iterations never change what \<open>computeFirst\<close> returns, so the value of a call
  is unique, and finitely many calls that each return do so within one common bound.
\<close>

lemma firstLoop_mono:
  assumes "\<And>s r. again s = Some r \<Longrightarrow> again' s = Some r"
  shows "firstLoop again symbols ps first = Some r \<Longrightarrow> firstLoop again' symbols ps first = Some r"
proof (induction ps arbitrary: first)
  case Nil
  then show ?case by simp
next
  case (Cons p ps)
  show ?case
  proof (cases "lhs p = symbols ! 0")
    case False
    with Cons show ?thesis by simp
  next
    case True
    show ?thesis
    proof (cases "length (rhs p) = 0 \<or> rhs p ! 0 = epsilon")
      case eps: True
      show ?thesis
      proof (cases "length symbols > 1")
        case long: True
        from Cons.prems True eps long obtain x where
          x: "again (drop 1 symbols) = Some x"
          and rest: "firstLoop again symbols ps (addAll x (setAdd epsilon first)) = Some r"
          by (cases "again (drop 1 symbols)") auto
        from assms[OF x] Cons.IH[OF rest] True eps long show ?thesis by auto
      next
        case short: False
        from Cons.prems True eps short
        have "firstLoop again symbols ps (setAdd epsilon first) = Some r" by auto
        from Cons.IH[OF this] True eps short show ?thesis by auto
      qed
    next
      case noeps: False
      from Cons.prems True noeps obtain y where y: "again (rhs p) = Some y"
        by (cases "again (rhs p)") auto
      show ?thesis
      proof (cases "epsilon \<in> set y \<and> length symbols > 1")
        case more: True
        from Cons.prems True noeps y more obtain x where
          x: "again (drop 1 symbols) = Some x"
          and rest: "firstLoop again symbols ps
                      (addAll x (addAll (filter (\<lambda>s. s \<noteq> epsilon) y) first)) = Some r"
          by (cases "again (drop 1 symbols)") auto
        from assms[OF x] assms[OF y] Cons.IH[OF rest] True noeps more show ?thesis by auto
      next
        case last: False
        from Cons.prems True noeps y last
        have "firstLoop again symbols ps (addAll (filter (\<lambda>s. s \<noteq> epsilon) y) first) = Some r"
          by auto
        from assms[OF y] Cons.IH[OF this] True noeps last show ?thesis by auto
      qed
    qed
  qed
qed

lemma computeFirst_mono_Suc:
  "computeFirst n g s = Some r \<Longrightarrow> computeFirst (Suc n) g s = Some r"
proof (induction n arbitrary: s r)
  case 0
  then show ?case by simp
next
  case (Suc n)
  show ?case
  proof (cases "length s = 0 \<or> s ! 0 \<in> set (terminals g)")
    case True
    with Suc.prems show ?thesis by (auto split: if_splits)
  next
    case False
    with Suc.prems have "firstLoop (computeFirst n g) s (productions g) [] = Some r"
      by (simp split: if_splits)
    from firstLoop_mono[where again = "computeFirst n g" and again' = "computeFirst (Suc n) g",
        OF Suc.IH this] False
    show ?thesis by (simp del: computeFirst.simps add: computeFirst.simps(2)[of "Suc n"])
  qed
qed

lemma computeFirst_mono:
  assumes "m \<le> n" "computeFirst m g s = Some r"
  shows "computeFirst n g s = Some r"
  using assms(1)
proof (induction rule: dec_induct)
  case base
  show ?case by (rule assms(2))
next
  case (step k)
  from computeFirst_mono_Suc[OF step.IH] show ?case .
qed

lemma computeFirst_unique:
  assumes "computeFirst m g s = Some a" "computeFirst n g s = Some b"
  shows "a = b"
proof -
  from computeFirst_mono[OF _ assms(1), of "max m n"] have "computeFirst (max m n) g s = Some a"
    by simp
  moreover from computeFirst_mono[OF _ assms(2), of "max m n"]
  have "computeFirst (max m n) g s = Some b" by simp
  ultimately show ?thesis by simp
qed

lemma computeFirst_uniform:
  assumes "\<forall>it\<in>set L. \<exists>m. computeFirst m g (continuation it) \<noteq> None"
  shows "\<exists>M. \<forall>it\<in>set L. \<forall>n\<ge>M. computeFirst n g (continuation it) \<noteq> None"
  using assms
proof (induction L)
  case Nil
  then show ?case by simp
next
  case (Cons x L)
  then obtain M where M: "\<forall>it\<in>set L. \<forall>n\<ge>M. computeFirst n g (continuation it) \<noteq> None" by auto
  from Cons.prems obtain m r where m: "computeFirst m g (continuation x) = Some r" by auto
  have "\<forall>it\<in>set (x # L). \<forall>n\<ge>max M m. computeFirst n g (continuation it) \<noteq> None"
    using M computeFirst_mono[OF _ m] by auto
  then show ?case by blast
qed

text \<open>
  A step of the loops of \<open>closure\<close> keeps the items it found, pushes only items of
  \<open>universe\<close> that were not there, and raises the flag only when it has pushed one.
\<close>

lemma itemsEqual_refl: "itemsEqual x x"
  by (simp add: itemsEqual_def arraysEqual_def list_all_iff)

lemma universe_mem:
  "p \<in> set (productions g) \<Longrightarrow> t \<in> set (terminals g) \<Longrightarrow>
   \<lparr>production = p, dotPosition = 0, lookahead = [t]\<rparr> \<in> set (universe g)"
  by (auto simp: universe_def)

lemma closureMeasure_push:
  assumes "x \<in> set (universe g)" "x \<notin> set result"
  shows "closureMeasure g (result @ [x]) = closureMeasure g result"
proof -
  let ?U = "set (universe g)"
  have "?U - set (result @ [x]) = (?U - set result) - {x}" by auto
  moreover have "x \<in> ?U - set result" using assms by simp
  moreover have "finite (?U - set result)" by simp
  ultimately have "card (?U - set (result @ [x])) = card (?U - set result) - 1"
    by (simp add: card_Diff_singleton)
  moreover have "card (?U - set result) > 0"
    using \<open>x \<in> ?U - set result\<close> \<open>finite (?U - set result)\<close> card_gt_0_iff by blast
  ultimately show ?thesis by (simp add: closureMeasure_def)
qed

lemma grows_refl: "grows g st st"
  by (simp add: grows_def)

lemma grows_trans: "grows g a b \<Longrightarrow> grows g b c \<Longrightarrow> grows g a c"
  unfolding grows_def by (intro conjI) (blast, blast, force, force, force, force)

lemma pushNew_grows:
  "p \<in> set (productions g) \<Longrightarrow> set las \<subseteq> set (terminals g) \<Longrightarrow>
   grows g (result, changed) (pushNew p las (result, changed))"
proof (induction las arbitrary: result changed)
  case Nil
  then show ?case by (simp add: grows_refl)
next
  case (Cons la las)
  let ?new = "\<lparr>production = p, dotPosition = 0, lookahead = [la]\<rparr>"
  show ?case
  proof (cases "list_ex (\<lambda>it. itemsEqual it ?new) result")
    case True
    with Cons show ?thesis by simp
  next
    case False
    then have nin: "?new \<notin> set result" using itemsEqual_refl by (auto simp: list_ex_iff)
    from Cons.prems have u: "?new \<in> set (universe g)" by (simp add: universe_mem)
    have "grows g (result, changed) (result @ [?new], True)"
      using closureMeasure_push[OF u nin] u by (auto simp: grows_def)
    moreover have "grows g (result @ [?new], True) (pushNew p las (result @ [?new], True))"
      using Cons by simp
    ultimately have "grows g (result, changed) (pushNew p las (result @ [?new], True))"
      by (rule grows_trans)
    with False show ?thesis by simp
  qed
qed

lemma expandProductions_grows:
  "set ps \<subseteq> set (productions g) \<Longrightarrow> set firstSet \<subseteq> set (terminals g) \<Longrightarrow>
   grows g st (expandProductions symb firstSet ps st)"
proof (induction ps arbitrary: st)
  case Nil
  then show ?case by (simp add: grows_refl)
next
  case (Cons p ps)
  let ?st1 = "if lhs p = symb then pushNew p firstSet st else st"
  have "grows g st ?st1"
    using pushNew_grows[of p g firstSet "fst st" "snd st"] Cons.prems by (simp add: grows_refl)
  moreover have "grows g ?st1 (expandProductions symb firstSet ps ?st1)"
    using Cons by simp
  ultimately have "grows g st (expandProductions symb firstSet ps ?st1)"
    by (rule grows_trans)
  then show ?case by simp
qed


lemma closureItem_grows:
  assumes "closureItem n g it st = Some st'"
  shows "grows g st st'"
proof (cases "callsFirst g it")
  case True
  with assms obtain fs where
    f: "computeFirst n g (drop (dotPosition it + 1) (rhs (production it)) @ lookahead it) = Some fs"
    and e: "st' = expandProductions (rhs (production it) ! dotPosition it)
                    (removeAll epsilon fs) (productions g) st"
    by (auto simp: closureItem_def callsFirst_def split: option.splits)
  from computeFirst_subset[OF f] have "set (removeAll epsilon fs) \<subseteq> set (terminals g)" by auto
  with e show ?thesis by (simp add: expandProductions_grows)
next
  case False
  with assms have "st' = st" by (auto simp: closureItem_def callsFirst_def split: if_splits)
  then show ?thesis by (simp add: grows_refl)
qed

lemma closurePass_grows:
  "closurePass n g i st = Some st' \<Longrightarrow> grows g st st'"
proof (induction n arbitrary: i st)
  case 0
  then show ?case by simp
next
  case (Suc n)
  obtain result changed where st: "st = (result, changed)" by (cases st)
  show ?case
  proof (cases "i < length result")
    case True
    with Suc.prems st obtain st1 where
      a: "closureItem n g (result ! i) st = Some st1"
      and b: "closurePass n g (i + 1) st1 = Some st'"
      by (auto split: option.splits)
    from closureItem_grows[OF a] Suc.IH[OF b] show ?thesis by (rule grows_trans)
  next
    case False
    with Suc.prems st show ?thesis by (auto simp: grows_refl)
  qed
qed

lemma closureLoop_superset:
  "closureLoop n g r = Some r' \<Longrightarrow> set r \<subseteq> set r'"
proof (induction n arbitrary: r)
  case 0
  then show ?case by simp
next
  case (Suc n)
  from Suc.prems obtain r1 ch where
    a: "closurePass n g 0 (r, False) = Some (r1, ch)" by (auto split: option.splits)
  from closurePass_grows[OF a] have s: "set r \<subseteq> set r1" by (simp add: grows_def)
  show ?case
  proof (cases ch)
    case True
    with Suc.prems a have "closureLoop n g r1 = Some r'" by simp
    from Suc.IH[OF this] s show ?thesis by blast
  next
    case False
    with Suc.prems a s show ?thesis by simp
  qed
qed

text \<open>
  Every item that \<open>closure\<close> holds is a starting item or was built by the inner loops
  from an item it held before.
\<close>

lemma pushNew_new:
  "set (fst (pushNew p las (result, changed))) \<subseteq>
   set result \<union> (\<lambda>l. \<lparr>production = p, dotPosition = 0, lookahead = [l]\<rparr>) ` set las"
proof (induction las arbitrary: result changed)
  case Nil
  then show ?case by simp
next
  case (Cons la las)
  show ?case
    using Cons.IH[of "result @ [\<lparr>production = p, dotPosition = 0, lookahead = [la]\<rparr>]" True]
      Cons.IH[of result changed]
    by auto
qed

lemma expandProductions_new:
  "x \<in> set (fst (expandProductions symb las ps st)) \<Longrightarrow>
   x \<in> set (fst st) \<or>
   (\<exists>p l. p \<in> set ps \<and> lhs p = symb \<and> l \<in> set las \<and>
          x = \<lparr>production = p, dotPosition = 0, lookahead = [l]\<rparr>)"
proof (induction ps arbitrary: st)
  case Nil
  then show ?case by simp
next
  case (Cons p ps)
  let ?st1 = "if lhs p = symb then pushNew p las st else st"
  from Cons.prems have "x \<in> set (fst (expandProductions symb las ps ?st1))" by simp
  from Cons.IH[OF this] consider
    (a) "x \<in> set (fst ?st1)"
    | (b) "\<exists>p l. p \<in> set ps \<and> lhs p = symb \<and> l \<in> set las \<and>
          x = \<lparr>production = p, dotPosition = 0, lookahead = [l]\<rparr>" by blast
  then show ?case
  proof cases
    case a
    show ?thesis
    proof (cases "lhs p = symb")
      case True
      with a have "x \<in> set (fst (pushNew p las (fst st, snd st)))" by simp
      with pushNew_new[of p las "fst st" "snd st"] True show ?thesis by auto
    next
      case False
      with a show ?thesis by simp
    qed
  next
    case b
    then show ?thesis by auto
  qed
qed

lemma closureItem_reach:
  assumes "closureItem n g it st = Some st'" "it \<in> reach g items0"
    "set (fst st) \<subseteq> reach g items0"
  shows "set (fst st') \<subseteq> reach g items0"
proof (cases "callsFirst g it")
  case True
  with assms(1) obtain fs where
    f: "computeFirst n g (continuation it) = Some fs"
    and e: "st' = expandProductions (rhs (production it) ! dotPosition it)
                    (removeAll epsilon fs) (productions g) st"
    by (auto simp: closureItem_def callsFirst_def continuation_def split: option.splits)
  show ?thesis
  proof
    fix x assume "x \<in> set (fst st')"
    with e have "x \<in> set (fst (expandProductions (rhs (production it) ! dotPosition it)
                    (removeAll epsilon fs) (productions g) st))" by simp
    from expandProductions_new[OF this] consider
      (old) "x \<in> set (fst st)"
      | (new) p l where "p \<in> set (productions g)" "lhs p = rhs (production it) ! dotPosition it"
          "l \<in> set (removeAll epsilon fs)"
          "x = \<lparr>production = p, dotPosition = 0, lookahead = [l]\<rparr>" by blast
    then show "x \<in> reach g items0"
    proof cases
      case old
      with assms(3) show ?thesis by blast
    next
      case new
      from new(3) have "l \<in> set fs" "l \<noteq> epsilon" by auto
      from reach.added[OF assms(2) True f new(1,2) this] new(4) show ?thesis by simp
    qed
  qed
next
  case False
  with assms(1) have "st' = st" by (auto simp: closureItem_def callsFirst_def split: if_splits)
  with assms(3) show ?thesis by simp
qed

lemma closurePass_reach:
  "closurePass n g i st = Some st' \<Longrightarrow> set (fst st) \<subseteq> reach g items0 \<Longrightarrow>
   set (fst st') \<subseteq> reach g items0"
proof (induction n arbitrary: i st)
  case 0
  then show ?case by simp
next
  case (Suc n)
  obtain result changed where st: "st = (result, changed)" by (cases st)
  show ?case
  proof (cases "i < length result")
    case True
    with Suc.prems(1) st obtain st1 where
      a: "closureItem n g (result ! i) st = Some st1"
      and b: "closurePass n g (i + 1) st1 = Some st'"
      by (auto split: option.splits)
    from True Suc.prems(2) st have "result ! i \<in> reach g items0" by auto
    from closureItem_reach[OF a this Suc.prems(2)] Suc.IH[OF b] show ?thesis by simp
  next
    case False
    with Suc.prems st show ?thesis by auto
  qed
qed

lemma closureLoop_reach:
  "closureLoop n g r = Some r' \<Longrightarrow> set r \<subseteq> reach g items0 \<Longrightarrow> set r' \<subseteq> reach g items0"
proof (induction n arbitrary: r)
  case 0
  then show ?case by simp
next
  case (Suc n)
  from Suc.prems(1) obtain r1 ch where
    a: "closurePass n g 0 (r, False) = Some (r1, ch)" by (auto split: option.splits)
  from closurePass_reach[OF a] Suc.prems(2) have s: "set r1 \<subseteq> reach g items0" by simp
  show ?case
  proof (cases ch)
    case True
    with Suc.prems(1) a have "closureLoop n g r1 = Some r'" by simp
    from Suc.IH[OF this s] show ?thesis .
  next
    case False
    with Suc.prems(1) a s show ?thesis by simp
  qed
qed

lemma reach_subset: "reach g items0 \<subseteq> set (items0 @ universe g)"
proof
  fix x assume "x \<in> reach g items0"
  then show "x \<in> set (items0 @ universe g)"
  proof (induction rule: reach.induct)
    case (start it)
    then show ?case by simp
  next
    case (added it m firstSet p l)
    from computeFirst_subset[OF added(3)] added(6,7) have "l \<in> set (terminals g)" by auto
    with added(4) show ?case by (simp add: universe_mem)
  qed
qed

text \<open>
  A pass returns when \<open>computeFirst\<close> returns for the items it visits, and only
  finitely many passes push an item.
\<close>

lemma closureItem_returns:
  assumes "callsFirst g it \<Longrightarrow> computeFirst n g (continuation it) \<noteq> None"
  shows "\<exists>st'. closureItem n g it st = Some st'"
proof (cases "callsFirst g it")
  case True
  with assms obtain fs where "computeFirst n g (continuation it) = Some fs" by auto
  with True show ?thesis by (simp add: closureItem_def callsFirst_def continuation_def)
next
  case False
  then show ?thesis by (auto simp: closureItem_def callsFirst_def)
qed

lemma closurePass_terminates:
  assumes M: "\<forall>it\<in>reach g items0. callsFirst g it \<longrightarrow>
                 (\<forall>n\<ge>M. computeFirst n g (continuation it) \<noteq> None)"
  shows "set (fst st) \<subseteq> reach g items0 \<Longrightarrow>
         M + (closureMeasure g (fst st) - i) + 1 \<le> F \<Longrightarrow>
         \<exists>st'. closurePass F g i st = Some st'"
proof (induction F arbitrary: i st)
  case 0
  then show ?case by simp
next
  case (Suc n)
  obtain result changed where st: "st = (result, changed)" by (cases st)
  show ?case
  proof (cases "i < length result")
    case True
    with Suc.prems(1) st have r: "result ! i \<in> reach g items0" by auto
    from Suc.prems(2) have "M \<le> n" by simp
    with r M have "callsFirst g (result ! i) \<Longrightarrow>
                   computeFirst n g (continuation (result ! i)) \<noteq> None" by blast
    from closureItem_returns[OF this, of st] obtain st1 where
      c: "closureItem n g (result ! i) st = Some st1" by blast
    from closureItem_grows[OF c] have g1: "grows g st st1" .
    from closureItem_reach[OF c r Suc.prems(1)] have a1: "set (fst st1) \<subseteq> reach g items0" .
    from g1 have m1: "closureMeasure g (fst st1) = closureMeasure g (fst st)" by (simp add: grows_def)
    from True st have "i < closureMeasure g (fst st)" by (simp add: closureMeasure_def)
    with Suc.prems(2) m1 have "M + (closureMeasure g (fst st1) - (i + 1)) + 1 \<le> n" by simp
    from Suc.IH[OF a1 this] obtain st' where
      p: "closurePass n g (i + 1) st1 = Some st'" by blast
    from c p True st have "closurePass (Suc n) g i st = Some st'" by simp
    then show ?thesis by blast
  next
    case False
    with st show ?thesis by simp
  qed
qed

lemma closureLoop_terminates:
  assumes M: "\<forall>it\<in>reach g items0. callsFirst g it \<longrightarrow>
                 (\<forall>n\<ge>M. computeFirst n g (continuation it) \<noteq> None)"
  shows "set result \<subseteq> reach g items0 \<Longrightarrow>
         M + closureMeasure g result + 2 + card (set (universe g) - set result) \<le> F \<Longrightarrow>
         \<exists>r. closureLoop F g result = Some r"
proof (induction F arbitrary: result)
  case 0
  then show ?case by simp
next
  case (Suc n)
  from Suc.prems(2) have "M + (closureMeasure g (fst (result, False)) - 0) + 1 \<le> n" by simp
  from closurePass_terminates[OF M _ this] Suc.prems(1) obtain r1 ch where
    p: "closurePass n g 0 (result, False) = Some (r1, ch)" by auto
  from closurePass_grows[OF p] have g1: "grows g (result, False) (r1, ch)" .
  from closurePass_reach[OF p] Suc.prems(1) have a1: "set r1 \<subseteq> reach g items0" by simp
  show ?case
  proof (cases ch)
    case True
    with g1 have lt: "length result < length r1"
      and m: "closureMeasure g r1 = closureMeasure g result" by (auto simp: grows_def)
    from lt m have "card (set (universe g) - set r1) < card (set (universe g) - set result)"
      by (simp add: closureMeasure_def)
    with Suc.prems(2) m
    have "M + closureMeasure g r1 + 2 + card (set (universe g) - set r1) \<le> n" by simp
    from Suc.IH[OF a1 this] p True show ?thesis by simp
  next
    case False
    with p show ?thesis by simp
  qed
qed

text \<open>
  More iterations never change what \<open>closure\<close> returns.
\<close>

lemma closureItem_mono:
  assumes "n \<le> n'" "closureItem n g it st = Some st'"
  shows "closureItem n' g it st = Some st'"
proof (cases "callsFirst g it")
  case True
  with assms(2) obtain fs where
    f: "computeFirst n g (drop (dotPosition it + 1) (rhs (production it)) @ lookahead it) = Some fs"
    and e: "st' = expandProductions (rhs (production it) ! dotPosition it)
                    (removeAll epsilon fs) (productions g) st"
    by (auto simp: closureItem_def callsFirst_def split: option.splits)
  from computeFirst_mono[OF assms(1) f] True e show ?thesis
    by (simp add: closureItem_def callsFirst_def)
next
  case False
  with assms(2) show ?thesis by (auto simp: closureItem_def callsFirst_def split: if_splits)
qed

lemma closurePass_mono:
  "n \<le> n' \<Longrightarrow> closurePass n g i st = Some st' \<Longrightarrow> closurePass n' g i st = Some st'"
proof (induction n arbitrary: n' i st)
  case 0
  then show ?case by simp
next
  case (Suc n)
  from Suc.prems(1) obtain k where k: "n' = Suc k" "n \<le> k" by (cases n') auto
  obtain result changed where st: "st = (result, changed)" by (cases st)
  show ?case
  proof (cases "i < length result")
    case True
    with Suc.prems(2) st obtain st1 where
      a: "closureItem n g (result ! i) st = Some st1"
      and b: "closurePass n g (i + 1) st1 = Some st'"
      by (auto split: option.splits)
    from closureItem_mono[OF k(2) a] Suc.IH[OF k(2) b] True st k(1) show ?thesis by simp
  next
    case False
    with Suc.prems(2) st have "st' = (result, changed)" by simp
    with False st k(1) show ?thesis by simp
  qed
qed

lemma closureLoop_mono:
  "n \<le> n' \<Longrightarrow> closureLoop n g r = Some r' \<Longrightarrow> closureLoop n' g r = Some r'"
proof (induction n arbitrary: n' r)
  case 0
  then show ?case by simp
next
  case (Suc n)
  from Suc.prems(1) obtain k where k: "n' = Suc k" "n \<le> k" by (cases n') auto
  from Suc.prems(2) obtain r1 ch where
    a: "closurePass n g 0 (r, False) = Some (r1, ch)" by (auto split: option.splits)
  from closurePass_mono[OF k(2) a] have a': "closurePass k g 0 (r, False) = Some (r1, ch)" .
  show ?case
  proof (cases ch)
    case True
    with Suc.prems(2) a have "closureLoop n g r1 = Some r'" by simp
    from Suc.IH[OF k(2) this] a' True k(1) show ?thesis by simp
  next
    case False
    with Suc.prems(2) a a' k(1) show ?thesis by simp
  qed
qed

lemma closure_mono:
  "n \<le> n' \<Longrightarrow> closure n g items0 = Some r \<Longrightarrow> closure n' g items0 = Some r"
  by (simp add: closure_def closureLoop_mono)

text \<open>
  The last pass of \<open>closure\<close> leaves the flag down: it has visited every item of the
  result and pushed nothing.
\<close>

lemma pushNew_unchanged:
  "pushNew p las (r, ch) = (result, False) \<Longrightarrow>
   r = result \<and> \<not> ch \<and>
   (\<forall>l\<in>set las. list_ex (\<lambda>x. itemsEqual x \<lparr>production = p, dotPosition = 0, lookahead = [l]\<rparr>) result)"
proof (induction las arbitrary: r ch)
  case Nil
  then show ?case by simp
next
  case (Cons la las)
  let ?new = "\<lparr>production = p, dotPosition = 0, lookahead = [la]\<rparr>"
  show ?case
  proof (cases "list_ex (\<lambda>it. itemsEqual it ?new) r")
    case True
    with Cons.prems have "pushNew p las (r, ch) = (result, False)" by simp
    from Cons.IH[OF this] True show ?thesis by simp
  next
    case False
    with Cons.prems have "pushNew p las (r @ [?new], True) = (result, False)" by simp
    from Cons.IH[OF this] show ?thesis by simp
  qed
qed

lemma expandProductions_unchanged:
  "expandProductions symb las ps st = (result, False) \<Longrightarrow>
   st = (result, False) \<and>
   (\<forall>p\<in>set ps. \<forall>l\<in>set las. lhs p = symb \<longrightarrow>
      list_ex (\<lambda>x. itemsEqual x \<lparr>production = p, dotPosition = 0, lookahead = [l]\<rparr>) result)"
proof (induction ps arbitrary: st)
  case Nil
  then show ?case by simp
next
  case (Cons p ps)
  let ?st1 = "if lhs p = symb then pushNew p las st else st"
  from Cons.prems have "expandProductions symb las ps ?st1 = (result, False)" by simp
  from Cons.IH[OF this] have s1: "?st1 = (result, False)"
    and rest: "\<forall>p\<in>set ps. \<forall>l\<in>set las. lhs p = symb \<longrightarrow>
      list_ex (\<lambda>x. itemsEqual x \<lparr>production = p, dotPosition = 0, lookahead = [l]\<rparr>) result"
    by simp_all
  show ?case
  proof (cases "lhs p = symb")
    case True
    with s1 have "pushNew p las (fst st, snd st) = (result, False)" by simp
    from pushNew_unchanged[OF this] rest show ?thesis by (cases st) auto
  next
    case False
    with s1 rest show ?thesis by simp
  qed
qed

lemma closureItem_unchanged:
  assumes "closureItem n g it (result, False) = Some (result, False)"
  shows "itemSaturated g result it"
proof (cases "callsFirst g it")
  case True
  with assms obtain fs where
    f: "computeFirst n g (continuation it) = Some fs"
    and e: "expandProductions (rhs (production it) ! dotPosition it)
              (removeAll epsilon fs) (productions g) (result, False) = (result, False)"
    by (auto simp: closureItem_def callsFirst_def continuation_def split: option.splits)
  from expandProductions_unchanged[OF e]
  have all: "\<forall>p\<in>set (productions g). \<forall>l\<in>set (removeAll epsilon fs).
               lhs p = rhs (production it) ! dotPosition it \<longrightarrow>
               list_ex (\<lambda>x. itemsEqual x \<lparr>production = p, dotPosition = 0, lookahead = [l]\<rparr>) result"
    by simp
  show ?thesis
    unfolding itemSaturated_def
  proof (intro allI impI ballI)
    fix m firstSet p l
    assume "computeFirst m g (continuation it) = Some firstSet"
      and p: "p \<in> set (productions g)" and l: "l \<in> set firstSet"
      and lp: "lhs p = rhs (production it) ! dotPosition it" and ne: "l \<noteq> epsilon"
    with computeFirst_unique[OF f] have "firstSet = fs" by simp
    with l ne have "l \<in> set (removeAll epsilon fs)" by simp
    with all p lp
    show "list_ex (\<lambda>x. itemsEqual x \<lparr>production = p, dotPosition = 0, lookahead = [l]\<rparr>) result"
      by blast
  qed
next
  case False
  then show ?thesis by (simp add: itemSaturated_def)
qed

lemma closurePass_unchanged:
  "closurePass k g i (result, False) = Some (result, False) \<Longrightarrow> i \<le> j \<Longrightarrow> j < length result \<Longrightarrow>
   itemSaturated g result (result ! j)"
proof (induction k arbitrary: i)
  case 0
  then show ?case by simp
next
  case (Suc k)
  from Suc.prems(2,3) have True: "i < length result" by simp
  with Suc.prems(1) obtain st1 where
    a: "closureItem k g (result ! i) (result, False) = Some st1"
    and b: "closurePass k g (i + 1) st1 = Some (result, False)"
    by (auto split: option.splits)
  from closurePass_grows[OF b] have "st1 = (result, False)" by (simp add: grows_def)
  with a b have a': "closureItem k g (result ! i) (result, False) = Some (result, False)"
    and b': "closurePass k g (i + 1) (result, False) = Some (result, False)" by simp_all
  show ?case
  proof (cases "j = i")
    case True
    with closureItem_unchanged[OF a'] show ?thesis by simp
  next
    case False
    with Suc.prems(2) have "i + 1 \<le> j" by simp
    from Suc.IH[OF b' this Suc.prems(3)] show ?thesis .
  qed
qed

lemma closureLoop_saturated:
  "closureLoop n g r = Some result \<Longrightarrow> saturated g result"
proof (induction n arbitrary: r)
  case 0
  then show ?case by simp
next
  case (Suc n)
  from Suc.prems obtain r1 ch where
    a: "closurePass n g 0 (r, False) = Some (r1, ch)" by (auto split: option.splits)
  show ?case
  proof (cases ch)
    case True
    with Suc.prems a have "closureLoop n g r1 = Some result" by simp
    from Suc.IH[OF this] show ?thesis .
  next
    case False
    with Suc.prems a have r1: "r1 = result" by simp
    from closurePass_grows[OF a] False have "r1 = r" by (simp add: grows_def)
    with a False r1 have "closurePass n g 0 (result, False) = Some (result, False)" by simp
    from closurePass_unchanged[OF this] show ?thesis
      by (auto simp: saturated_def in_set_conv_nth)
  qed
qed

text \<open>
  The condition on \<open>computeFirst\<close> is needed for the items of the result: when
  \<open>closure\<close> returns, \<open>computeFirst\<close> has returned for each of them that has a
  nonterminal at the dot.
\<close>

lemma closureItem_calls:
  assumes "closureItem n g it st = Some st'" "callsFirst g it"
  shows "computeFirst n g (continuation it) \<noteq> None"
  using assms
  by (auto simp: closureItem_def callsFirst_def continuation_def split: option.splits)

lemma closurePass_calls:
  "closurePass k g i (result, False) = Some (result, False) \<Longrightarrow> i \<le> j \<Longrightarrow> j < length result \<Longrightarrow>
   callsFirst g (result ! j) \<Longrightarrow> computeFirst k g (continuation (result ! j)) \<noteq> None"
proof (induction k arbitrary: i)
  case 0
  then show ?case by simp
next
  case (Suc k)
  from Suc.prems(2,3) have True: "i < length result" by simp
  with Suc.prems(1) obtain st1 where
    a: "closureItem k g (result ! i) (result, False) = Some st1"
    and b: "closurePass k g (i + 1) st1 = Some (result, False)"
    by (auto split: option.splits)
  from closurePass_grows[OF b] have "st1 = (result, False)" by (simp add: grows_def)
  with b have b': "closurePass k g (i + 1) (result, False) = Some (result, False)" by simp
  have "computeFirst k g (continuation (result ! j)) \<noteq> None"
  proof (cases "j = i")
    case True
    with closureItem_calls[OF a] Suc.prems(4) show ?thesis by simp
  next
    case False
    with Suc.prems(2) have "i + 1 \<le> j" by simp
    from Suc.IH[OF b' this Suc.prems(3,4)] show ?thesis .
  qed
  then obtain fs where "computeFirst k g (continuation (result ! j)) = Some fs" by auto
  from computeFirst_mono[OF _ this, of "Suc k"] show ?case by simp
qed

lemma closureLoop_last_pass:
  "closureLoop n g r = Some result \<Longrightarrow>
   \<exists>k\<le>n. closurePass k g 0 (result, False) = Some (result, False)"
proof (induction n arbitrary: r)
  case 0
  then show ?case by simp
next
  case (Suc n)
  from Suc.prems obtain r1 ch where
    a: "closurePass n g 0 (r, False) = Some (r1, ch)" by (auto split: option.splits)
  show ?case
  proof (cases ch)
    case True
    with Suc.prems a have "closureLoop n g r1 = Some result" by simp
    from Suc.IH[OF this] show ?thesis by (auto intro: le_SucI)
  next
    case False
    with Suc.prems a have r1: "r1 = result" by simp
    from closurePass_grows[OF a] False have "r1 = r" by (simp add: grows_def)
    with a False r1 have "closurePass n g 0 (result, False) = Some (result, False)" by simp
    then show ?thesis by (auto intro: le_SucI)
  qed
qed

lemma closure_calls_return:
  assumes "closure n g items0 = Some result" "it \<in> set result" "callsFirst g it"
  shows "computeFirst n g (continuation it) \<noteq> None"
proof -
  from assms(1) closureLoop_last_pass obtain k where
    k: "k \<le> n" "closurePass k g 0 (result, False) = Some (result, False)"
    unfolding closure_def by blast
  from assms(2) obtain j where j: "j < length result" "result ! j = it"
    by (auto simp: in_set_conv_nth)
  from closurePass_calls[OF k(2) _ j(1)] j(2) assms(3)
  obtain fs where "computeFirst k g (continuation it) = Some fs" by auto
  from computeFirst_mono[OF k(1) this] show ?thesis by simp
qed

text \<open>
  The grammar of arithmetic expressions: \<open>computeFirst\<close> never returns on a sequence
  that starts with \<open>E\<close>, and \<open>closure\<close> never hands it one.
\<close>

lemma arithGrammar_parsed: "parseGrammar arithLines = Inr arithGrammar"
  by code_simp

lemma computeFirst_arith_E: "computeFirst n arithGrammar (str ''E'' # rest) = None"
  by (induction n arbitrary: rest) (simp_all add: arithGrammar_def epsilon_def)

lemma arith_calls:
  "list_all (\<lambda>it. \<not> callsFirst arithGrammar it \<or>
                  computeFirst 1 arithGrammar (continuation it) \<noteq> None)
     (arithStart # universe arithGrammar)"
  by code_simp

lemma arith_closure_length:
  "map_option length (closure 20 arithGrammar [arithStart]) = Some 17"
  by code_simp

text \<open>
  The grammar of lists: \<open>closure\<close> hands \<open>computeFirst\<close> a sequence that starts with
  the left-recursive \<open>B\<close>.
\<close>

lemma listGrammar_parsed: "parseGrammar listLines = Inr listGrammar"
  by code_simp

lemma computeFirst_B_b: "computeFirst n listGrammar [str ''B'', str ''b''] = None"
  by (induction n) (simp_all add: listGrammar_def epsilon_def)

lemma computeFirst_B_end: "computeFirst n listGrammar [str ''B'', endMarker] = None"
proof (cases n)
  case 0
  then show ?thesis by simp
next
  case (Suc m)
  have "computeFirst m listGrammar [str ''B'', str ''b''] = None" by (rule computeFirst_B_b)
  then have "computeFirst m listGrammar (rhs (productions listGrammar ! 3)) = None"
    by (simp add: listGrammar_def)
  with Suc show ?thesis by (simp add: listGrammar_def epsilon_def endMarker_def)
qed

lemma closurePass_list_None:
  "closurePass n listGrammar 0
     ([\<lparr>production = productions listGrammar ! 0, dotPosition = 0, lookahead = [endMarker]\<rparr>], False)
   = None"
proof (cases n)
  case 0
  then show ?thesis by simp
next
  case (Suc m)
  show ?thesis
  proof (cases m)
    case 0
    with Suc show ?thesis by (simp add: closureItem_def listGrammar_def)
  next
    case (Suc k)
    have b: "computeFirst k listGrammar [str ''B'', endMarker] = None" by (rule computeFirst_B_end)
    have "closureItem k listGrammar
            \<lparr>production = productions listGrammar ! 1, dotPosition = 0, lookahead = [endMarker]\<rparr>
            st = None" for st
      using b by (simp add: closureItem_def listGrammar_def)
    with Suc \<open>n = Suc m\<close> show ?thesis
      by (simp add: closureItem_def listGrammar_def epsilon_def endMarker_def itemsEqual_def
          arraysEqual_def)
  qed
qed

text \<open>
  C6, as the code has it. Whenever \<open>computeFirst\<close> returns on every call that \<open>closure\<close>
  makes, that is for each starting item and each item \<open>closure\<close> can add that has a
  nonterminal at the dot, \<open>closure\<close> returns after finitely many passes, and what it
  returns is a fixed point: it contains the starting items, it holds nothing but the
  starting items and items built from them, a further pass would push nothing
  (\<open>saturated\<close>), and \<open>closure\<close> applied to it returns it unchanged. Items with a
  terminal at the dot, or with the dot at the end, put no condition on the grammar. The
  loops of \<open>closure\<close> themselves always end, since every item pushed is a new one out of
  finitely many.
\<close>

theorem closure_terminates:
  assumes "\<forall>it\<in>reach g items0. callsFirst g it \<longrightarrow>
              (\<exists>m. computeFirst m g (continuation it) \<noteq> None)"
  shows "\<exists>N result.
           (\<forall>n\<ge>N. closure n g items0 = Some result \<and> closure n g result = Some result) \<and>
           set items0 \<subseteq> set result \<and> set result \<subseteq> reach g items0 \<and> saturated g result"
proof -
  let ?L = "filter (\<lambda>it. it \<in> reach g items0 \<and> callsFirst g it) (items0 @ universe g)"
  from assms have "\<forall>it\<in>set ?L. \<exists>m. computeFirst m g (continuation it) \<noteq> None" by auto
  from computeFirst_uniform[OF this] obtain M where
    "\<forall>it\<in>set ?L. \<forall>n\<ge>M. computeFirst n g (continuation it) \<noteq> None" by blast
  with reach_subset[of g items0]
  have M: "\<forall>it\<in>reach g items0. callsFirst g it \<longrightarrow>
             (\<forall>n\<ge>M. computeFirst n g (continuation it) \<noteq> None)" by auto
  let ?N = "M + closureMeasure g items0 + 2 + card (set (universe g) - set items0)"
  have s: "set items0 \<subseteq> reach g items0" by (auto intro: reach.start)
  from closureLoop_terminates[OF M s, of ?N] obtain result where
    r: "closureLoop ?N g items0 = Some result" by auto
  from closureLoop_last_pass[OF r] obtain k where
    k: "k \<le> ?N" "closurePass k g 0 (result, False) = Some (result, False)" by blast
  from k(2) have again: "closureLoop (Suc k) g result = Some result" by simp
  have "closure n g items0 = Some result \<and> closure n g result = Some result"
    if "Suc ?N \<le> n" for n
  proof
    from that have "?N \<le> n" by simp
    from closureLoop_mono[OF this r] show "closure n g items0 = Some result"
      by (simp add: closure_def)
    from that k(1) have "Suc k \<le> n" by simp
    from closureLoop_mono[OF this again] show "closure n g result = Some result"
      by (simp add: closure_def)
  qed
  then have "\<forall>n\<ge>Suc ?N. closure n g items0 = Some result \<and> closure n g result = Some result"
    by blast
  moreover from closureLoop_superset[OF r] have "set items0 \<subseteq> set result" .
  moreover from closureLoop_reach[OF r s] have "set result \<subseteq> reach g items0" .
  moreover from closureLoop_saturated[OF r] have "saturated g result" .
  ultimately show ?thesis by blast
qed

theorem closure_terminates_witness:
  "parseGrammar arithLines = Inr arithGrammar \<and>
   (\<forall>n. computeFirst n arithGrammar
          (continuation \<lparr>production = productions arithGrammar ! 5, dotPosition = 0,
                          lookahead = [endMarker]\<rparr>) = None) \<and>
   list_all (\<lambda>it. \<not> callsFirst arithGrammar it \<or>
                  computeFirst 1 arithGrammar (continuation it) \<noteq> None)
     (arithStart # universe arithGrammar) \<and>
   (\<exists>N result.
      closure 20 arithGrammar [arithStart] = Some result \<and> length result = 17 \<and>
      (\<forall>n\<ge>N. closure n arithGrammar [arithStart] = Some result \<and>
              closure n arithGrammar result = Some result) \<and>
      set [arithStart] \<subseteq> set result \<and> set result \<subseteq> reach arithGrammar [arithStart] \<and>
      saturated arithGrammar result)"
proof -
  have "\<forall>it\<in>reach arithGrammar [arithStart]. callsFirst arithGrammar it \<longrightarrow>
          (\<exists>m. computeFirst m arithGrammar (continuation it) \<noteq> None)"
  proof (intro ballI impI)
    fix it assume "it \<in> reach arithGrammar [arithStart]" and c: "callsFirst arithGrammar it"
    with reach_subset have "it \<in> set (arithStart # universe arithGrammar)" by fastforce
    with arith_calls c show "\<exists>m. computeFirst m arithGrammar (continuation it) \<noteq> None"
      unfolding list_all_iff by blast
  qed
  from closure_terminates[OF this] obtain N result where
    r: "\<forall>n\<ge>N. closure n arithGrammar [arithStart] = Some result \<and>
               closure n arithGrammar result = Some result"
    "set [arithStart] \<subseteq> set result" "set result \<subseteq> reach arithGrammar [arithStart]"
    "saturated arithGrammar result" by blast
  from arith_closure_length obtain r20 where
    c: "closure 20 arithGrammar [arithStart] = Some r20" "length r20 = 17" by auto
  from closure_mono[OF _ c(1), of "max 20 N"] r(1) have "r20 = result" by simp
  with c r have e: "\<exists>N result.
      closure 20 arithGrammar [arithStart] = Some result \<and> length result = 17 \<and>
      (\<forall>n\<ge>N. closure n arithGrammar [arithStart] = Some result \<and>
              closure n arithGrammar result = Some result) \<and>
      set [arithStart] \<subseteq> set result \<and> set result \<subseteq> reach arithGrammar [arithStart] \<and>
      saturated arithGrammar result" by blast
  have "computeFirst n arithGrammar
          (continuation \<lparr>production = productions arithGrammar ! 5, dotPosition = 0,
                          lookahead = [endMarker]\<rparr>) = None" for n
    using computeFirst_arith_E[of n "[str ''r'', endMarker]"]
    by (simp add: continuation_def arithGrammar_def)
  with arithGrammar_parsed arith_calls e show ?thesis by blast
qed

text \<open>
  The claim as stated fails: for a grammar with a left-recursive nonterminal after another
  nonterminal, \<open>computeFirst\<close> calls itself with the same argument for ever, and the
  closure of the initial item never returns.
\<close>

theorem closure_diverges_on_left_recursion:
  "parseGrammar listLines = Inr listGrammar \<and>
   (\<forall>n. closure n listGrammar
          [\<lparr>production = productions listGrammar ! 0, dotPosition = 0, lookahead = [endMarker]\<rparr>]
        = None)"
proof -
  have "closure n listGrammar
          [\<lparr>production = productions listGrammar ! 0, dotPosition = 0, lookahead = [endMarker]\<rparr>]
        = None" for n
    by (cases n) (simp_all add: closure_def closurePass_list_None)
  with listGrammar_parsed show ?thesis by simp
qed

section \<open>Inherited properties in parseString\<close>

text \<open>
  C5. \<open>parseString\<close> should report a token without an action as a rejection with a
  trace, and never throw. With the table built for the line \<open>S -> a\<close> it accepts
  \<open>a\<close> and rejects \<open>b\<close> so; but for the token \<open>constructor\<close> the row of state 0,
  a plain object, yields the inherited member of that name, which is not a string, and the
  call of \<open>startsWith\<close> on it throws.
\<close>

theorem parseString_throws_on_inherited_name:
  "(case parseGrammarCopy (str ''S -> a'') of
      Inl err \<Rightarrow> False
    | Inr g \<Rightarrow>
        (case generateClrItems 20 g of
           Some (Inr states) \<Rightarrow>
             (case generateDfa 20 states g of
                Some d \<Rightarrow>
                  (case generateParsingTable states d g of
                     Inr tbl \<Rightarrow>
                       parseString 20 g tbl (str ''a'') =
                         Some (Inr \<lparr>isValid = True,
                                    steps = [str ''Shift: a and go to state 2'',
                                             str ''Reduce: S -> a and go to state 1'',
                                             str ''String accepted!'']\<rparr>) \<and>
                       parseString 20 g tbl (str ''b'') =
                         Some (Inr \<lparr>isValid = False,
                                    steps = [str ''Error: No action found for state 0 and token b'']\<rparr>) \<and>
                       parseString 20 g tbl (str ''constructor'') = Some (Inl TypeError)
                   | Inl err \<Rightarrow> False)
              | None \<Rightarrow> False)
         | _ \<Rightarrow> False))"
  by code_simp

section \<open>The error for an empty grammar\<close>

lemma scanSymbols_error:
  "scanSymbols syms st = Inl e \<Longrightarrow> \<exists>m. e = Error (73 # m)"
  by (induction syms st rule: scanSymbols.induct) (auto split: if_splits)

lemma parseLines_error:
  "parseLines stored i lines st = Inl e \<Longrightarrow> \<exists>m. e = Error (73 # m)"
proof (induction lines arbitrary: i st)
  case Nil
  then show ?case by simp
next
  case (Cons line rest)
  obtain prods ts nts where st: "st = (prods, ts, nts)" by (cases st)
  show ?case
  proof (cases "matchLine line")
    case None
    with Cons.prems st show ?thesis by auto
  next
    case (Some m)
    obtain l r where m: "m = (l, r)" by (cases m)
    let ?rhs = "if trim r = epsilon \<or> trim r = [] then [epsilon] else splitSpaces (trim r)"
    show ?thesis
    proof (cases "scanSymbols ?rhs (ts, setAdd l nts)")
      case (Inl e')
      with Cons.prems st Some m have "e = e'" by (simp add: Let_def)
      with scanSymbols_error[OF Inl] show ?thesis by simp
    next
      case (Inr p)
      obtain ts2 nts2 where p: "p = (ts2, nts2)" by (cases p)
      from Cons.prems st Some m Inr p have
        "parseLines stored (i + 1) rest (prods @ [\<lparr>lhs = l, rhs = stored ?rhs, pid = i + 1\<rparr>], ts2, nts2)
         = Inl e" by (simp add: Let_def)
      from Cons.IH[OF this] show ?thesis .
    qed
  qed
qed

lemma parseGrammarWith_never_empty_error:
  "parseGrammarWith stored input \<noteq> Inl (Error (str ''Grammar cannot be empty''))"
proof
  assume a: "parseGrammarWith stored input = Inl (Error (str ''Grammar cannot be empty''))"
  have ne: "length (splitNewline (trim input)) \<noteq> 0" using splitNewline_nonempty by simp
  show False
  proof (cases "parseLines stored 0 (splitNewline (trim input)) ([], [], [])")
    case (Inl e)
    with a ne have "e = Error (str ''Grammar cannot be empty'')"
      by (simp add: parseGrammarWith_def Let_def)
    with parseLines_error[OF Inl] show False by simp
  next
    case (Inr p)
    obtain prods ts nts where p: "p = (prods, ts, nts)" by (cases p)
    with a ne Inr show False
      by (cases prods) (simp_all add: parseGrammarWith_def Let_def)
  qed
qed

text \<open>
  C7. An input without production lines should fail with "Grammar cannot be empty".
  The empty input and an input of spaces split into one empty line, so the test for no
  lines fails and the empty line is reported as a malformed production, in both copies.
  No input at all makes \<open>parseGrammar\<close> fail with "Grammar cannot be empty".
\<close>

theorem parseGrammar_empty_input_is_format_error:
  "parseGrammar (str '''') = Inl (Error (str ''Invalid production format: '')) \<and>
   parseGrammar (str ''   '') = Inl (Error (str ''Invalid production format: '')) \<and>
   parseGrammarCopy (str '''') = Inl (Error (str ''Invalid production format: '')) \<and>
   parseGrammarCopy (str ''   '') = Inl (Error (str ''Invalid production format: '')) \<and>
   parseGrammar input \<noteq> Inl (Error (str ''Grammar cannot be empty'')) \<and>
   parseGrammarCopy input \<noteq> Inl (Error (str ''Grammar cannot be empty''))"
proof -
  have "parseGrammar (str '''') = Inl (Error (str ''Invalid production format: '')) \<and>
   parseGrammar (str ''   '') = Inl (Error (str ''Invalid production format: '')) \<and>
   parseGrammarCopy (str '''') = Inl (Error (str ''Invalid production format: '')) \<and>
   parseGrammarCopy (str ''   '') = Inl (Error (str ''Invalid production format: ''))"
    by code_simp
  then show ?thesis
    using parseGrammarWith_never_empty_error[of storedRhsLib input]
      parseGrammarWith_never_empty_error[of storedRhsCopy input]
    by (simp add: parseGrammar_def parseGrammarCopy_def)
qed

end
